theory Spec2Isabelle
  imports Main "HOL-Library.Char_ord" "HOL-Library.List_Lexorder" "HOL-Library.AList"
begin

section \<open>Strings\<close>

text \<open>
  Python \<^verbatim>\<open>str\<close> values are modelled as \<^typ>\<open>string\<close>; the model covers ASCII text, where
  Python's code points and the characters of \<^typ>\<open>string\<close> coincide.
\<close>

definition startswith :: "string \<Rightarrow> string \<Rightarrow> bool" where
  \<comment> \<open>\<^verbatim>\<open>s.startswith(p)\<close>\<close>
  "startswith s p = (take (length p) s = p)"

fun join :: "string \<Rightarrow> string list \<Rightarrow> string" where
  \<comment> \<open>\<^verbatim>\<open>sep.join(xs)\<close>\<close>
  "join sep [] = []"
| "join sep [x] = x"
| "join sep (x # y # ys) = x @ sep @ join sep (y # ys)"

definition last_segment :: "string \<Rightarrow> string" where
  \<comment> \<open>\<^verbatim>\<open>s.split('.')[-1]\<close>\<close>
  "last_segment s = rev (takeWhile (\<lambda>c. c \<noteq> CHR ''.'') (rev s))"

definition is_space :: "char \<Rightarrow> bool" where
  \<comment> \<open>the ASCII characters that \<^verbatim>\<open>str.strip()\<close> removes\<close>
  "is_space c = (let n = (of_char c :: nat) in (9 \<le> n \<and> n \<le> 13) \<or> (28 \<le> n \<and> n \<le> 32))"

definition strip :: "string \<Rightarrow> string" where
  "strip s = rev (dropWhile is_space (rev (dropWhile is_space s)))"

definition is_id_start :: "char \<Rightarrow> bool" where
  "is_id_start c = (let n = (of_char c :: nat) in
     (65 \<le> n \<and> n \<le> 90) \<or> (97 \<le> n \<and> n \<le> 122) \<or> n = 95)"

definition is_id_continue :: "char \<Rightarrow> bool" where
  "is_id_continue c = (let n = (of_char c :: nat) in is_id_start c \<or> (48 \<le> n \<and> n \<le> 57))"

fun isidentifier :: "string \<Rightarrow> bool" where
  \<comment> \<open>\<^verbatim>\<open>str.isidentifier()\<close> on ASCII text: a letter or underscore, then letters, digits
      and underscores; the empty string is not an identifier\<close>
  "isidentifier [] = False"
| "isidentifier (c # cs) = (is_id_start c \<and> list_all is_id_continue cs)"

section \<open>Name sanitizer\<close>

definition sanitize_name :: "string \<Rightarrow> string" where
  \<comment> \<open>\<^verbatim>\<open>_sanitize_name\<close>\<close>
  "sanitize_name name = (if \<not> isidentifier name then ''_'' @ name else name)"

section \<open>Runtime objects\<close>

text \<open>
  The generator only observes runtime objects through a fixed set of reflective
  operations. An object is the record of what those operations return for it; objects
  refer to each other through references into a heap, and the reference is the object's
  identity (\<^verbatim>\<open>id(obj)\<close>).
\<close>

datatype exn = AttributeError | FileExistsError | NotADirectoryError | IsADirectoryError
  | InspectionError

datatype annotations =
    NoAnnotations \<comment> \<open>\<^verbatim>\<open>hasattr(obj, '__annotations__')\<close> is false\<close>
  | AnnotationsRaise \<comment> \<open>reading \<^verbatim>\<open>__annotations__\<close> or calling its \<^verbatim>\<open>get\<close> raises\<close>
  | Annotations "(string \<times> string option) list"
    \<comment> \<open>the annotation dictionary: each key with \<^verbatim>\<open>str(value)\<close>, \<open>None\<close> when \<^verbatim>\<open>str\<close> raises\<close>

record pyobj =
  isclass :: bool \<comment> \<open>\<^verbatim>\<open>inspect.isclass(obj)\<close>\<close>
  ismodule :: bool \<comment> \<open>\<^verbatim>\<open>inspect.ismodule(obj)\<close>\<close>
  is_callable :: bool \<comment> \<open>\<^verbatim>\<open>callable(obj)\<close>\<close>
  isproperty :: bool \<comment> \<open>\<^verbatim>\<open>isinstance(obj, property)\<close>\<close>
  has_self :: bool \<comment> \<open>\<^verbatim>\<open>inspect.ismethod(obj) or hasattr(obj, '__self__')\<close>\<close>
  is_primitive :: bool \<comment> \<open>\<^verbatim>\<open>isinstance(obj, (int, float, str, bool))\<close>\<close>
  type_name :: string \<comment> \<open>\<^verbatim>\<open>type(obj).__name__\<close>\<close>
  attr_name :: "string option" \<comment> \<open>\<^verbatim>\<open>__name__\<close>, \<open>None\<close> when absent\<close>
  attr_module :: "string option" \<comment> \<open>\<^verbatim>\<open>__module__\<close>, \<open>None\<close> when absent or \<^verbatim>\<open>None\<close>\<close>
  attr_annotations :: annotations
  signature :: "string option" \<comment> \<open>\<^verbatim>\<open>str(inspect.signature(obj))\<close>, \<open>None\<close> when it raises\<close>
  base_names :: "string list" \<comment> \<open>\<^verbatim>\<open>__name__\<close> of each entry of \<^verbatim>\<open>__bases__\<close>\<close>
  attr_doc :: "string option" \<comment> \<open>\<^verbatim>\<open>__doc__\<close> when present and not \<^verbatim>\<open>None\<close>\<close>
  dir_names :: "string list" \<comment> \<open>\<^verbatim>\<open>dir(obj)\<close>\<close>
  getattr :: "string \<rightharpoonup> nat" \<comment> \<open>\<^verbatim>\<open>getattr(obj, name)\<close>: a reference, \<open>None\<close> when it raises\<close>

type_synonym heap = "nat \<Rightarrow> pyobj"

definition getattr_name :: "pyobj \<Rightarrow> string \<Rightarrow> string" where
  \<comment> \<open>\<^verbatim>\<open>getattr(obj, '__name__', default)\<close>\<close>
  "getattr_name obj dflt = (case attr_name obj of Some n \<Rightarrow> n | None \<Rightarrow> dflt)"

section \<open>Type annotation resolver\<close>

definition inspect_type :: "pyobj \<Rightarrow> exn + string" where
  \<comment> \<open>the body of the \<^verbatim>\<open>try\<close> block of \<^verbatim>\<open>_get_type_annotation\<close>\<close>
  "inspect_type obj =
     (case attr_annotations obj of
        AnnotationsRaise \<Rightarrow> Inl InspectionError
      | Annotations d \<Rightarrow>
          (case map_of d ''return'' of
             None \<Rightarrow> Inr ''Any''
           | Some None \<Rightarrow> Inl InspectionError
           | Some (Some s) \<Rightarrow> Inr s)
      | NoAnnotations \<Rightarrow>
          (if is_primitive obj then Inr (type_name obj) else Inr ''Any''))"

definition get_type_annotation :: "pyobj \<Rightarrow> string" where
  \<comment> \<open>\<^verbatim>\<open>_get_type_annotation\<close>: the bare \<^verbatim>\<open>except\<close> turns every failure into \<^verbatim>\<open>'Any'\<close>\<close>
  "get_type_annotation obj = (case inspect_type obj of Inl e \<Rightarrow> ''Any'' | Inr s \<Rightarrow> s)"

definition primitive_kinds :: "string list" where
  "primitive_kinds = [''int'', ''float'', ''str'', ''bool'']"

definition plain_object :: pyobj where
  \<comment> \<open>an object with no special behaviour: an instance of a plain class\<close>
  "plain_object = \<lparr> isclass = False, ismodule = False, is_callable = False,
     isproperty = False, has_self = False, is_primitive = False, type_name = ''object'',
     attr_name = None, attr_module = None, attr_annotations = NoAnnotations,
     signature = None, base_names = [], attr_doc = None, dir_names = [],
     getattr = Map.empty \<rparr>"

definition enum_member :: pyobj where
  \<comment> \<open>a member of \<^verbatim>\<open>class Color(enum.IntEnum)\<close>: an instance of \<^verbatim>\<open>int\<close> whose type is \<^verbatim>\<open>Color\<close>\<close>
  "enum_member = plain_object \<lparr> is_primitive := True, type_name := ''Color'' \<rparr>"

section \<open>Class stub renderer\<close>

definition dquote :: char where
  "dquote = CHR 0x22"

definition backslash :: char where
  "backslash = CHR 0x5C"

fun escape_triple_quotes :: "string \<Rightarrow> string" where
  \<comment> \<open>\<^verbatim>\<open>.replace('"""', '\\"\\"\\"')\<close>: left to right, without overlaps\<close>
  "escape_triple_quotes (a # b # c # cs) =
     (if a = dquote \<and> b = dquote \<and> c = dquote
      then [backslash, dquote, backslash, dquote, backslash, dquote] @ escape_triple_quotes cs
      else a # escape_triple_quotes (b # c # cs))"
| "escape_triple_quotes cs = cs"

definition special_names :: "string list" where
  "special_names = [''__init__'', ''__new__'', ''__call__'', ''__str__'', ''__repr__'']"

definition method_line :: "string \<Rightarrow> string \<Rightarrow> pyobj \<Rightarrow> string" where
  \<comment> \<open>the line of a callable member: its signature, or one of three fallbacks\<close>
  "method_line name sanitized attr =
     (case signature attr of
        Some sig \<Rightarrow> ''    def '' @ sanitized @ sig @ '': ...''
      | None \<Rightarrow>
          (if name \<in> set [''__init__'', ''__new__'']
           then ''    def '' @ sanitized @ ''(self, *args, **kwargs): ...''
           else if has_self attr
           then ''    def '' @ sanitized @ ''(self, *args, **kwargs): ...''
           else ''    @staticmethod\<newline>    def '' @ sanitized @ ''(*args, **kwargs): ...''))"

type_synonym class_members = "string list \<times> string list \<times> string list \<times> bool"
  \<comment> \<open>\<^verbatim>\<open>methods\<close>, \<^verbatim>\<open>properties\<close>, \<^verbatim>\<open>class_vars\<close>, \<^verbatim>\<open>has_members\<close>\<close>

definition class_member_step :: "heap \<Rightarrow> pyobj \<Rightarrow> class_members \<Rightarrow> string \<Rightarrow> class_members" where
  \<comment> \<open>one iteration of the loop over \<^verbatim>\<open>sorted(dir(cls))\<close>\<close>
  "class_member_step h cls acc name =
     (case acc of (methods, properties, class_vars, has_members) \<Rightarrow>
        if startswith name ''_'' \<and> name \<notin> set special_names then acc
        else
          (case getattr cls name of
             None \<Rightarrow> acc
           | Some r \<Rightarrow>
               (let attr = h r; sanitized = sanitize_name name in
                if is_callable attr
                then (methods @ [method_line name sanitized attr], properties, class_vars, True)
                else if isproperty attr
                then (methods, properties @ [''    '' @ sanitized @ '': Any''], class_vars, True)
                else (methods, properties,
                      class_vars @ [''    '' @ sanitized @ '': '' @ get_type_annotation attr],
                      True))))"

definition collect_class_members :: "heap \<Rightarrow> pyobj \<Rightarrow> class_members" where
  "collect_class_members h cls =
     foldl (class_member_step h cls) ([], [], [], False) (sort (dir_names cls))"

definition doc_lines :: "pyobj \<Rightarrow> string list" where
  \<comment> \<open>the docstring line: escaped, stripped, cut at 200 characters\<close>
  "doc_lines cls =
     (case attr_doc cls of
        None \<Rightarrow> []
      | Some d \<Rightarrow>
          (if d = [] then []
           else (let doc = strip (escape_triple_quotes d) in
                 if doc = [] then []
                 else [''    '' @ [dquote, dquote, dquote] @ take 200 doc
                       @ (if length doc > 200 then ''...'' else [])
                       @ [dquote, dquote, dquote]])))"

definition dump_class_stub :: "heap \<Rightarrow> pyobj \<Rightarrow> exn + string" where
  \<comment> \<open>\<^verbatim>\<open>cls.__name__\<close> is read without a default: a class without it raises\<close>
  "dump_class_stub h cls =
     (case attr_name cls of
        None \<Rightarrow> Inl AttributeError
      | Some n \<Rightarrow>
          (let class_name = sanitize_name n;
               bases = filter (\<lambda>b. b \<noteq> ''object'') (base_names cls);
               header = (if bases \<noteq> []
                         then ''class '' @ class_name @ ''('' @ join '', '' bases @ ''):''
                         else ''class '' @ class_name @ '':'')
           in case collect_class_members h cls of
                (methods, properties, class_vars, has_members) \<Rightarrow>
                  Inr (join ''\<newline>''
                         ([header] @ doc_lines cls
                          @ (if \<not> has_members then [''    pass'']
                             else class_vars @ properties @ methods))
                       @ ''\<newline>\<newline>'')))"

section \<open>Function stub renderer\<close>

definition dump_function_stub :: "pyobj \<Rightarrow> exn + string" where
  \<comment> \<open>\<^verbatim>\<open>func.__name__\<close> is read before the \<^verbatim>\<open>try\<close>: a callable without it raises\<close>
  "dump_function_stub func =
     (case attr_name func of
        None \<Rightarrow> Inl AttributeError
      | Some n \<Rightarrow>
          (case signature func of
             Some sig \<Rightarrow> Inr (''def '' @ sanitize_name n @ sig @ '': ...\<newline>'')
           | None \<Rightarrow> Inr (''def '' @ sanitize_name n @ ''(*args, **kwargs): ...\<newline>'')))"

section \<open>Member classifier\<close>

definition internal_prefixes :: "string list" where
  "internal_prefixes =
     [''builtins'', ''_'', ''sys'', ''os'', ''io'', ''collections'',
      ''typing'', ''abc'', ''enum'', ''functools'', ''itertools'',
      ''operator'', ''weakref'', ''threading'', ''multiprocessing'']"

definition is_internal_module :: "string \<Rightarrow> bool" where
  \<comment> \<open>\<^verbatim>\<open>_is_internal_module\<close>\<close>
  "is_internal_module module_name = list_ex (startswith module_name) internal_prefixes"

record members = \<comment> \<open>the dictionaries \<^verbatim>\<open>members['classes']\<close>, \<^verbatim>\<open>['functions']\<close>, \<^verbatim>\<open>['submodules']\<close>, \<^verbatim>\<open>['variables']\<close>\<close>
  m_classes :: "(string \<times> nat) list"
  m_functions :: "(string \<times> nat) list"
  m_submodules :: "(string \<times> nat) list"
  m_variables :: "(string \<times> nat) list"


definition empty_members :: members where
  "empty_members = \<lparr> m_classes = [], m_functions = [], m_submodules = [], m_variables = [] \<rparr>"

definition owned_class :: "string \<Rightarrow> pyobj \<Rightarrow> bool" where
  \<comment> \<open>the test on \<^verbatim>\<open>attr_module\<close> of the class branch\<close>
  "owned_class module_name attr =
     (let attr_module = attr_module attr in
      attr_module = None \<or> attr_module = Some module_name
      \<or> (case attr_module of None \<Rightarrow> False
          | Some a \<Rightarrow> startswith a (module_name @ ''.'')))"

definition qualifying_submodule :: "string \<Rightarrow> string \<Rightarrow> pyobj \<Rightarrow> bool" where
  \<comment> \<open>the test of the module branch\<close>
  "qualifying_submodule module_name name attr =
     (let attr_module_name = getattr_name attr name in
      attr_module_name \<noteq> module_name
      \<and> startswith attr_module_name (module_name @ ''.'')
      \<and> \<not> is_internal_module attr_module_name)"

definition owned_function :: "string \<Rightarrow> pyobj \<Rightarrow> bool" where
  \<comment> \<open>the test on \<^verbatim>\<open>attr_module\<close> of the callable branch\<close>
  "owned_function module_name attr =
     (let attr_module = attr_module attr in
      attr_module = None \<or> attr_module = Some module_name)"

type_synonym classifier_state = "members \<times> (nat \<rightharpoonup> string) \<times> (nat \<rightharpoonup> string)"
  \<comment> \<open>\<^verbatim>\<open>members\<close>, \<^verbatim>\<open>class_objects_in_module\<close>, \<^verbatim>\<open>self.class_name_mapping\<close>\<close>

definition member_step ::
  "heap \<Rightarrow> pyobj \<Rightarrow> string \<Rightarrow> classifier_state \<Rightarrow> string \<Rightarrow> classifier_state" where
  \<comment> \<open>one iteration of the loop over \<^verbatim>\<open>dir(module)\<close>\<close>
  "member_step h module module_name st name =
     (case st of (members, class_objects_in_module, class_name_mapping) \<Rightarrow>
        if startswith name ''_'' then st
        else
          (case getattr module name of
             None \<Rightarrow> st
           | Some r \<Rightarrow>
               (let attr = h r in
                if isclass attr then
                  (if owned_class module_name attr then
                     (case class_objects_in_module r of
                        Some existing_name \<Rightarrow> st
                      | None \<Rightarrow>
                          (let class_actual_name = getattr_name attr name;
                               chosen_name =
                                 (if class_actual_name = name then class_actual_name else name)
                           in (members \<lparr> m_classes := AList.update chosen_name r (m_classes members) \<rparr>,
                               class_objects_in_module (r \<mapsto> chosen_name),
                               class_name_mapping (r \<mapsto> chosen_name))))
                   else st)
                else if ismodule attr then
                  (if qualifying_submodule module_name name attr
                   then (members \<lparr> m_submodules := AList.update name r (m_submodules members) \<rparr>,
                         class_objects_in_module, class_name_mapping)
                   else st)
                else if is_callable attr \<and> \<not> isclass attr then
                  (if owned_function module_name attr
                   then (members \<lparr> m_functions := AList.update name r (m_functions members) \<rparr>,
                         class_objects_in_module, class_name_mapping)
                   else st)
                else (members \<lparr> m_variables := AList.update name r (m_variables members) \<rparr>,
                      class_objects_in_module, class_name_mapping))))"

definition get_module_members ::
  "heap \<Rightarrow> pyobj \<Rightarrow> (nat \<rightharpoonup> string) \<Rightarrow> members \<times> (nat \<rightharpoonup> string)" where
  \<comment> \<open>returns the members and the updated \<^verbatim>\<open>self.class_name_mapping\<close>\<close>
  "get_module_members h module class_name_mapping =
     (let module_name = getattr_name module ''unknown'' in
      case foldl (member_step h module module_name)
             (empty_members, Map.empty, class_name_mapping) (dir_names module) of
        (members, class_objects_in_module, mapping) \<Rightarrow> (members, mapping))"




text \<open>
  The invariant of the classifier's loop: \<^verbatim>\<open>class_objects_in_module\<close> is the inverse of
  the class dictionary, and \<^verbatim>\<open>self.class_name_mapping\<close> agrees with it.
\<close>

definition class_inv :: "pyobj \<Rightarrow> classifier_state \<Rightarrow> bool" where
  "class_inv mo st = (case st of (ms, co, mp) \<Rightarrow>
     distinct (map fst (m_classes ms))
     \<and> (\<forall>r n. co r = Some n \<longrightarrow> getattr mo n = Some r \<and> map_of (m_classes ms) n = Some r \<and> mp r = Some n)
     \<and> (\<forall>n r. map_of (m_classes ms) n = Some r \<longrightarrow> co r = Some n))"

text \<open>What an entry of the submodule dictionary satisfies.\<close>

definition submodule_entry :: "heap \<Rightarrow> pyobj \<Rightarrow> string \<Rightarrow> string \<times> nat \<Rightarrow> bool" where
  "submodule_entry h mo mn e = (case e of (n, r) \<Rightarrow>
     getattr mo n = Some r \<and> ismodule (h r) \<and> qualifying_submodule mn n (h r))"

section \<open>File system\<close>

text \<open>
  A path is the list of its components, \<^verbatim>\<open>base / name\<close> appends one component, and
  \<^verbatim>\<open>str(path)\<close> joins them with slashes. A component is taken as a whole, also when the
  name it comes from contains a slash.
\<close>

type_synonym path = "string list"

record filesystem =
  dirs :: "path set"
  files :: "path \<rightharpoonup> string"

definition path_str :: "path \<Rightarrow> string" where
  "path_str p = (if p = [] then ''.'' else join ''/'' p)"

definition is_under :: "path \<Rightarrow> path \<Rightarrow> bool" where
  \<comment> \<open>\<open>q\<close> is \<open>p\<close> or lies below it\<close>
  "is_under p q = (take (length p) q = p)"

fun ancestors :: "path \<Rightarrow> path list" where
  \<comment> \<open>the path and the directories above it\<close>
  "ancestors [] = []"
| "ancestors (x # xs) = [x] # map ((#) x) (ancestors xs)"

definition mkdir_parents :: "path \<Rightarrow> filesystem \<Rightarrow> exn + filesystem" where
  \<comment> \<open>\<^verbatim>\<open>path.mkdir(parents=True, exist_ok=True)\<close>\<close>
  "mkdir_parents p fs =
     (if files fs p \<noteq> None then Inl FileExistsError
      else if list_ex (\<lambda>q. files fs q \<noteq> None) (ancestors p) then Inl NotADirectoryError
      else Inr (fs \<lparr> dirs := dirs fs \<union> set (ancestors p) \<rparr>))"

definition rmtree :: "path \<Rightarrow> filesystem \<Rightarrow> exn + filesystem" where
  \<comment> \<open>\<^verbatim>\<open>shutil.rmtree(path)\<close>\<close>
  "rmtree p fs =
     (if files fs p \<noteq> None then Inl NotADirectoryError
      else Inr \<lparr> dirs = Set.filter (\<lambda>q. \<not> is_under p q) (dirs fs),
                 files = (\<lambda>q. if is_under p q then None else files fs q) \<rparr>)"

definition endswith_newline :: "string \<Rightarrow> bool" where
  \<comment> \<open>\<^verbatim>\<open>content.endswith('\n')\<close>\<close>
  "endswith_newline s = (s \<noteq> [] \<and> last s = CHR 0x0A)"

definition write_init :: "path \<Rightarrow> string list \<Rightarrow> filesystem \<Rightarrow> exn + filesystem" where
  \<comment> \<open>the \<^verbatim>\<open>with open(init_file, 'w')\<close> block\<close>
  "write_init init_file init_content fs =
     (if init_file \<in> dirs fs then Inl IsADirectoryError
      else
        (let content = join ''\<newline>'' init_content;
             written = (if strip content \<noteq> []
                        then (if \<not> endswith_newline content then content @ ''\<newline>''
                              else content)
                        else ''from typing import Any\<newline>'')
         in Inr (fs \<lparr> files := (files fs) (init_file \<mapsto> written) \<rparr>)))"


text \<open>
  What a call of the tree builder for the base path \<open>b\<close> may change in the file system:
  directories are only added, at \<open>b\<close>, above it or below it, and files only below it.
\<close>

definition strictly_under :: "path \<Rightarrow> path \<Rightarrow> bool" where
  "strictly_under p q = (is_under p q \<and> q \<noteq> p)"

definition fs_frame :: "path \<Rightarrow> filesystem \<Rightarrow> filesystem \<Rightarrow> bool" where
  "fs_frame b fs fs' =
     (dirs fs \<subseteq> dirs fs'
      \<and> dirs fs' \<subseteq> dirs fs \<union> set (ancestors b) \<union> Collect (strictly_under b)
      \<and> (\<forall>q. strictly_under b q \<or> files fs' q = files fs q)
      \<and> dom (files fs) \<subseteq> dom (files fs'))"

definition parents_exist :: "filesystem \<Rightarrow> bool" where
  \<comment> \<open>well-formed file systems: what exists lies in directories that exist\<close>
  "parents_exist fs =
     (\<forall>q. q \<in> dirs fs \<or> files fs q \<noteq> None
        \<longrightarrow> (\<forall>p \<in> set (ancestors q). p = q \<or> p \<in> dirs fs))"

section \<open>Tree builder\<close>

record generator =
  processed_modules :: "string set"
  processed_classes :: "string set"
  processed_class_objects :: "nat set"
  class_name_mapping :: "nat \<rightharpoonup> string"

definition new_generator :: generator where
  \<comment> \<open>\<^verbatim>\<open>__init__\<close>\<close>
  "new_generator = \<lparr> processed_modules = {}, processed_classes = {},
     processed_class_objects = {}, class_name_mapping = Map.empty \<rparr>"

text \<open>
  An exception leaves the mutations made before it in place, so every operation returns
  the generator and the file system together with the exception, if any.
\<close>

fun render_classes ::
  "heap \<Rightarrow> string \<Rightarrow> (string \<times> nat) list \<Rightarrow> generator \<Rightarrow> string list
   \<Rightarrow> exn option \<times> generator \<times> string list" where
  \<comment> \<open>the loop over \<^verbatim>\<open>members['classes'].items()\<close>\<close>
  "render_classes h module_name [] g init_content = (None, g, init_content)"
| "render_classes h module_name ((class_name, r) # rest) g init_content =
     (if r \<in> processed_class_objects g then
        (let existing_name =
               (case class_name_mapping g r of Some n \<Rightarrow> n | None \<Rightarrow> class_name);
             safe_class_name = sanitize_name class_name;
             safe_existing_name = sanitize_name existing_name
         in render_classes h module_name rest g
              (if safe_class_name \<noteq> safe_existing_name
               then init_content @ [safe_class_name @ '' = '' @ safe_existing_name]
               else init_content))
      else
        (let g' = g \<lparr> processed_class_objects := insert r (processed_class_objects g),
                      processed_classes :=
                        insert (module_name @ ''.'' @ class_name) (processed_classes g) \<rparr>
         in case dump_class_stub h (h r) of
              Inl e \<Rightarrow> (Some e, g', init_content)
            | Inr stub \<Rightarrow> render_classes h module_name rest g' (init_content @ [stub])))"

fun render_functions :: "heap \<Rightarrow> (string \<times> nat) list \<Rightarrow> string list \<Rightarrow> exn + string list" where
  \<comment> \<open>the loop over \<^verbatim>\<open>members['functions'].items()\<close>\<close>
  "render_functions h [] init_content = Inr init_content"
| "render_functions h ((func_name, r) # rest) init_content =
     (case dump_function_stub (h r) of
        Inl e \<Rightarrow> Inl e
      | Inr stub \<Rightarrow> render_functions h rest (init_content @ [stub]))"

definition render_variables :: "heap \<Rightarrow> (string \<times> nat) list \<Rightarrow> string list" where
  \<comment> \<open>the loop over \<^verbatim>\<open>members['variables'].items()\<close>\<close>
  "render_variables h vars =
     map (\<lambda>(var_name, r). sanitize_name var_name @ '': '' @ get_type_annotation (h r)) vars"

type_synonym outcome = "exn option \<times> generator \<times> filesystem"

fun recurse_submodules ::
  "(nat \<Rightarrow> path \<Rightarrow> string \<Rightarrow> generator \<Rightarrow> filesystem \<Rightarrow> outcome option)
   \<Rightarrow> heap \<Rightarrow> path \<Rightarrow> (string \<times> nat) list \<Rightarrow> generator \<Rightarrow> filesystem \<Rightarrow> string list
   \<Rightarrow> (generator \<times> filesystem \<times> string list) option" where
  \<comment> \<open>the loop over \<^verbatim>\<open>members['submodules'].items()\<close>; \<open>recurse\<close> is the recursive call,
      whose exception the \<^verbatim>\<open>except\<close> clause drops together with the import line\<close>
  "recurse_submodules recurse h module_dir [] g fs init_content = Some (g, fs, init_content)"
| "recurse_submodules recurse h module_dir ((submodule_name, r) # rest) g fs init_content =
     (case recurse r module_dir (getattr_name (h r) submodule_name) g fs of
        None \<Rightarrow> None
      | Some (Some e, g', fs') \<Rightarrow> recurse_submodules recurse h module_dir rest g' fs' init_content
      | Some (None, g', fs') \<Rightarrow>
          recurse_submodules recurse h module_dir rest g' fs'
            (init_content @ [''from . import '' @ sanitize_name submodule_name]))"

text \<open>
  The recursion of \<^verbatim>\<open>create_module_structure\<close> follows the object graph, which may be
  cyclic, so the model counts the nesting depth down: \<open>None\<close> means that the depth given
  was not enough for the call to return.
\<close>

fun create_module_structure ::
  "nat \<Rightarrow> heap \<Rightarrow> nat \<Rightarrow> path \<Rightarrow> string option \<Rightarrow> generator \<Rightarrow> filesystem \<Rightarrow> outcome option" where
  "create_module_structure 0 h m base_path module_name_arg g fs = None"
| "create_module_structure (Suc depth) h m base_path module_name_arg g fs =
     (let module = h m;
          module_name =
            (case module_name_arg of
               None \<Rightarrow> getattr_name module ''unknown''
             | Some n \<Rightarrow> n);
          full_module_key = path_str base_path @ ''/'' @ module_name
      in
      if full_module_key \<in> processed_modules g then Some (None, g, fs)
      else
        (let g1 = g \<lparr> processed_modules := insert full_module_key (processed_modules g) \<rparr>;
             safe_module_name = sanitize_name (last_segment module_name);
             module_dir = base_path @ [safe_module_name]
         in
         case mkdir_parents module_dir fs of
           Inl e \<Rightarrow> Some (Some e, g1, fs)
         | Inr fs1 \<Rightarrow>
             (case get_module_members h module (class_name_mapping g1) of
                (members, mapping) \<Rightarrow>
                  (case render_classes h module_name (m_classes members)
                          (g1 \<lparr> class_name_mapping := mapping \<rparr>)
                          [''from typing import Any\<newline>''] of
                     (Some e, g2, content) \<Rightarrow> Some (Some e, g2, fs1)
                   | (None, g2, content1) \<Rightarrow>
                       (case render_functions h (m_functions members) content1 of
                          Inl e \<Rightarrow> Some (Some e, g2, fs1)
                        | Inr content2 \<Rightarrow>
                            (case recurse_submodules
                                    (\<lambda>r p n g' fs'. create_module_structure depth h r p (Some n) g' fs')
                                    h module_dir (m_submodules members) g2 fs1
                                    (content2 @ render_variables h (m_variables members)) of
                               None \<Rightarrow> None
                             | Some (g3, fs3, content3) \<Rightarrow>
                                 (case write_init (module_dir @ [''__init__.pyi'']) content3 fs3 of
                                    Inl e \<Rightarrow> Some (Some e, g3, fs3)
                                  | Inr fs4 \<Rightarrow> Some (None, g3, fs4))))))))"

text \<open>Names for the values the tree builder computes on entry, used to state its properties.\<close>

definition effective_name :: "heap \<Rightarrow> nat \<Rightarrow> string option \<Rightarrow> string" where
  "effective_name h m module_name_arg =
     (case module_name_arg of None \<Rightarrow> getattr_name (h m) ''unknown'' | Some n \<Rightarrow> n)"

definition module_key :: "path \<Rightarrow> string \<Rightarrow> string" where
  "module_key base_path module_name = path_str base_path @ ''/'' @ module_name"

definition module_dir :: "path \<Rightarrow> string \<Rightarrow> path" where
  "module_dir base_path module_name = base_path @ [sanitize_name (last_segment module_name)]"

definition mark_module :: "string \<Rightarrow> generator \<Rightarrow> generator" where
  "mark_module key g = g \<lparr> processed_modules := insert key (processed_modules g) \<rparr>"

definition descend :: "nat \<Rightarrow> heap \<Rightarrow> nat \<Rightarrow> path \<Rightarrow> string \<Rightarrow> generator \<Rightarrow> filesystem \<Rightarrow> outcome option" where
  "descend depth h = (\<lambda>r p n g' fs'. create_module_structure depth h r p (Some n) g' fs')"

definition generator_grows :: "generator \<Rightarrow> generator \<Rightarrow> bool" where
  "generator_grows g g' =
     (processed_modules g \<subseteq> processed_modules g'
      \<and> processed_class_objects g \<subseteq> processed_class_objects g')"

text \<open>
  The tree builder's work on a namespace not yet visited, with the recursive call as a
  parameter: \<^const>\<open>create_module_structure\<close> at depth \<open>Suc d\<close> is this body over the calls at
  depth \<open>d\<close> (lemma \<open>create_module_structure_Suc\<close>).
\<close>

definition module_body ::
  "(nat \<Rightarrow> path \<Rightarrow> string \<Rightarrow> generator \<Rightarrow> filesystem \<Rightarrow> outcome option)
   \<Rightarrow> heap \<Rightarrow> nat \<Rightarrow> path \<Rightarrow> string \<Rightarrow> generator \<Rightarrow> filesystem \<Rightarrow> outcome option" where
  "module_body recurse h m base mn g fs =
     (case mkdir_parents (module_dir base mn) fs of
        Inl e \<Rightarrow> Some (Some e, mark_module (module_key base mn) g, fs)
      | Inr fs1 \<Rightarrow>
          (case get_module_members h (h m) (class_name_mapping g) of
             (members, mapping) \<Rightarrow>
               (case render_classes h mn (m_classes members)
                       (mark_module (module_key base mn) g \<lparr> class_name_mapping := mapping \<rparr>)
                       [''from typing import Any\<newline>''] of
                  (Some e, g2, content) \<Rightarrow> Some (Some e, g2, fs1)
                | (None, g2, content1) \<Rightarrow>
                    (case render_functions h (m_functions members) content1 of
                       Inl e \<Rightarrow> Some (Some e, g2, fs1)
                     | Inr content2 \<Rightarrow>
                         (case recurse_submodules recurse h (module_dir base mn)
                                 (m_submodules members) g2 fs1
                                 (content2 @ render_variables h (m_variables members)) of
                            None \<Rightarrow> None
                          | Some (g3, fs3, content3) \<Rightarrow>
                              (case write_init (module_dir base mn @ [''__init__.pyi''])
                                      content3 fs3 of
                                 Inl e \<Rightarrow> Some (Some e, g3, fs3)
                               | Inr fs4 \<Rightarrow> Some (None, g3, fs4)))))))"



section \<open>Driver\<close>

record run =
  raised :: "exn option" \<comment> \<open>the exception that leaves the driver, if any\<close>
  reported :: "exn option" \<comment> \<open>the exception the driver caught and printed, if any\<close>
  generator_after :: generator
  fs_after :: filesystem

definition prepare_output :: "path \<Rightarrow> bool \<Rightarrow> filesystem \<Rightarrow> exn option \<times> filesystem" where
  \<comment> \<open>the statements of the driver before its \<^verbatim>\<open>try\<close> block\<close>
  "prepare_output output_dir remove_if_exists fs =
     (case (if (output_dir \<in> dirs fs \<or> files fs output_dir \<noteq> None) \<and> remove_if_exists
            then rmtree output_dir fs else Inr fs) of
        Inl e \<Rightarrow> (Some e, fs)
      | Inr fs1 \<Rightarrow>
          (case mkdir_parents output_dir fs1 of
             Inl e \<Rightarrow> (Some e, fs1)
           | Inr fs2 \<Rightarrow> (None, fs2)))"

definition generator_dump_module ::
  "nat \<Rightarrow> heap \<Rightarrow> nat \<Rightarrow> path \<Rightarrow> bool \<Rightarrow> generator \<Rightarrow> filesystem \<Rightarrow> run option" where
  \<comment> \<open>the method \<^verbatim>\<open>ModuleStubGenerator.dump_module\<close>\<close>
  "generator_dump_module depth h m output_dir remove_if_exists g fs =
     (case prepare_output output_dir remove_if_exists fs of
        (Some e, fs1) \<Rightarrow>
          Some \<lparr> raised = Some e, reported = None, generator_after = g, fs_after = fs1 \<rparr>
      | (None, fs1) \<Rightarrow>
          (case create_module_structure depth h m output_dir None g fs1 of
             None \<Rightarrow> None
           | Some (e, g', fs') \<Rightarrow>
               Some \<lparr> raised = None, reported = e, generator_after = g', fs_after = fs' \<rparr>))"

definition dump_module :: "nat \<Rightarrow> heap \<Rightarrow> nat \<Rightarrow> path \<Rightarrow> bool \<Rightarrow> filesystem \<Rightarrow> run option" where
  \<comment> \<open>the module-level function \<^verbatim>\<open>dump_module\<close>: a fresh generator for each run\<close>
  "dump_module depth h m output_dir remove_if_exists fs =
     generator_dump_module depth h m output_dir remove_if_exists new_generator fs"

section \<open>Example objects\<close>

definition widget :: pyobj where
  \<comment> \<open>a class with a method, a constructor without signature, a private attribute, a
      string constant and an attribute that raises when read\<close>
  "widget = plain_object \<lparr> isclass := True, is_callable := True, attr_name := Some ''Widget'',
     dir_names := [''resize'', ''__init__'', ''_cache'', ''VERSION'', ''broken''],
     getattr := [''resize'' \<mapsto> 1, ''__init__'' \<mapsto> 2, ''_cache'' \<mapsto> 3, ''VERSION'' \<mapsto> 3] \<rparr>"

definition widget_heap :: heap where
  "widget_heap = (\<lambda>r.
     if r = 1 then plain_object \<lparr> is_callable := True,
                     signature := Some ''(self, w: int, h: int) -> None'' \<rparr>
     else if r = 2 then plain_object \<lparr> is_callable := True \<rparr>
     else plain_object \<lparr> is_primitive := True, type_name := ''str'' \<rparr>)"

definition alias_heap :: heap where
  \<comment> \<open>module \<^verbatim>\<open>demo\<close> defines \<^verbatim>\<open>class Real\<close> and binds it to \<^verbatim>\<open>Alias\<close> as well\<close>
  "alias_heap = (\<lambda>r.
     if r = 0 then plain_object \<lparr> ismodule := True, type_name := ''module'',
        attr_name := Some ''demo'', dir_names := [''Alias'', ''Real''],
        getattr := [''Alias'' \<mapsto> 1, ''Real'' \<mapsto> 1] \<rparr>
     else plain_object \<lparr> isclass := True, is_callable := True, type_name := ''type'',
        attr_name := Some ''Real'', attr_module := Some ''demo'' \<rparr>)"


definition empty_fs :: filesystem where
  "empty_fs = \<lparr> dirs = {}, files = Map.empty \<rparr>"

definition demo_heap :: heap where
  \<comment> \<open>package \<^verbatim>\<open>demo\<close> with \<^verbatim>\<open>import demo.utils as helpers\<close>: the submodule is bound to
      \<^verbatim>\<open>helpers\<close> and to \<^verbatim>\<open>utils\<close>\<close>
  "demo_heap = (\<lambda>r.
     if r = 0 then plain_object \<lparr> ismodule := True, type_name := ''module'',
        attr_name := Some ''demo'', dir_names := [''__name__'', ''helpers'', ''utils''],
        getattr := [''__name__'' \<mapsto> 2, ''helpers'' \<mapsto> 1, ''utils'' \<mapsto> 1] \<rparr>
     else if r = 1 then plain_object \<lparr> ismodule := True, type_name := ''module'',
        attr_name := Some ''demo.utils'', dir_names := [''__name__''],
        getattr := [''__name__'' \<mapsto> 3] \<rparr>
     else plain_object \<lparr> is_primitive := True, type_name := ''str'' \<rparr>)"

definition cycle_heap :: heap where
  \<comment> \<open>package \<^verbatim>\<open>pkg\<close> whose submodule \<^verbatim>\<open>pkg.sub\<close> re-exports its parent and itself\<close>
  "cycle_heap = (\<lambda>r.
     if r = 0 then plain_object \<lparr> ismodule := True, type_name := ''module'',
        attr_name := Some ''pkg'', dir_names := [''sub''], getattr := [''sub'' \<mapsto> 1] \<rparr>
     else if r = 1 then plain_object \<lparr> ismodule := True, type_name := ''module'',
        attr_name := Some ''pkg.sub'', dir_names := [''me'', ''parent''],
        getattr := [''me'' \<mapsto> 1, ''parent'' \<mapsto> 0] \<rparr>
     else plain_object)"

definition demo_tree :: filesystem where
  \<comment> \<open>the output tree of a run on \<^const>\<open>demo_heap\<close>\<close>
  "demo_tree = \<lparr> dirs = {[''stubs''], [''stubs'', ''demo''], [''stubs'', ''demo'', ''utils'']},
     files = [[''stubs'', ''demo'', ''utils'', ''__init__.pyi''] \<mapsto> ''from typing import Any\<newline>'',
              [''stubs'', ''demo'', ''__init__.pyi'']
                \<mapsto> ''from typing import Any\<newline>\<newline>from . import helpers\<newline>from . import utils\<newline>''] \<rparr>"

definition demo_run :: run where
  "demo_run = \<lparr> raised = None, reported = None,
     generator_after =
       new_generator \<lparr> processed_modules := {''stubs/demo/demo.utils'', ''stubs/demo''} \<rparr>,
     fs_after = demo_tree \<rparr>"

definition stubs_file_fs :: filesystem where
  \<comment> \<open>a file system in which \<^verbatim>\<open>stubs\<close> is a regular file\<close>
  "stubs_file_fs = \<lparr> dirs = {}, files = [[''stubs''] \<mapsto> ''notes''] \<rparr>"

definition handler_heap :: heap where
  \<comment> \<open>module \<^verbatim>\<open>demo\<close> binds \<^verbatim>\<open>handler\<close> to an instance of one of its classes that defines
      \<^verbatim>\<open>__call__\<close>: callable, owned by \<^verbatim>\<open>demo\<close>, and without \<^verbatim>\<open>__name__\<close>\<close>
  "handler_heap = (\<lambda>r.
     if r = 0 then plain_object \<lparr> ismodule := True, type_name := ''module'',
        attr_name := Some ''demo'', dir_names := [''handler''],
        getattr := [''handler'' \<mapsto> 1] \<rparr>
     else plain_object \<lparr> is_callable := True, type_name := ''Handler'',
        attr_module := Some ''demo'' \<rparr>)"




section \<open>Properties of the name sanitizer\<close>

lemma sanitize_name_identifier: "isidentifier name \<Longrightarrow> sanitize_name name = name"
  by (simp add: sanitize_name_def)

lemma sanitize_name_other: "\<not> isidentifier name \<Longrightarrow> sanitize_name name = CHR ''_'' # name"
  by (simp add: sanitize_name_def)

text \<open>
  C5. The sanitizer is the identity on identifiers and prefixes one underscore otherwise,
  but the prefixed result need not be an identifier: for the package name \<^verbatim>\<open>my-pkg\<close> the
  result \<^verbatim>\<open>_my-pkg\<close> still contains the hyphen.
\<close>

theorem sanitize_name_not_identifier:
  "\<not> isidentifier ''my-pkg'' \<and> sanitize_name ''my-pkg'' = ''_my-pkg''
   \<and> \<not> isidentifier (sanitize_name ''my-pkg'')"
  by (simp add: sanitize_name_def is_id_start_def is_id_continue_def)

section \<open>Properties of the class stub renderer\<close>

lemma class_member_step_skip:
  "startswith n ''_'' \<and> n \<notin> set special_names \<or> getattr cls n = None
   \<Longrightarrow> class_member_step h cls acc n = acc"
  by (auto simp: class_member_step_def split: prod.splits)

lemma class_member_step_show:
  assumes "\<not> startswith n ''_'' \<or> n \<in> set special_names" and "getattr cls n = Some r"
  shows "class_member_step h cls (ms, ps, vs, hm) n =
     (if is_callable (h r) then (ms @ [method_line n (sanitize_name n) (h r)], ps, vs, True)
      else if isproperty (h r) then (ms, ps @ [''    '' @ sanitize_name n @ '': Any''], vs, True)
      else (ms, ps, vs @ [''    '' @ sanitize_name n @ '': '' @ get_type_annotation (h r)], True))"
  using assms by (auto simp: class_member_step_def Let_def)

lemma class_member_loop:
  "foldl (class_member_step h cls) (ms, ps, vs, hm) names =
     (let shown = filter (\<lambda>n. (\<not> startswith n ''_'' \<or> n \<in> set special_names)
                              \<and> getattr cls n \<noteq> None) names;
          member = (\<lambda>n. h (the (getattr cls n)))
      in (ms @ map (\<lambda>n. method_line n (sanitize_name n) (member n))
                (filter (\<lambda>n. is_callable (member n)) shown),
          ps @ map (\<lambda>n. ''    '' @ sanitize_name n @ '': Any'')
                (filter (\<lambda>n. \<not> is_callable (member n) \<and> isproperty (member n)) shown),
          vs @ map (\<lambda>n. ''    '' @ sanitize_name n @ '': '' @ get_type_annotation (member n))
                (filter (\<lambda>n. \<not> is_callable (member n) \<and> \<not> isproperty (member n)) shown),
          hm \<or> shown \<noteq> []))"
proof (induction names arbitrary: ms ps vs hm)
  case Nil
  then show ?case by simp
next
  case (Cons n names)
  show ?case
  proof (cases "(\<not> startswith n ''_'' \<or> n \<in> set special_names) \<and> getattr cls n \<noteq> None")
    case False
    then have "class_member_step h cls (ms, ps, vs, hm) n = (ms, ps, vs, hm)"
      using class_member_step_skip[of n cls h "(ms, ps, vs, hm)"] by auto
    with False show ?thesis by (simp add: Cons.IH Let_def)
  next
    case True
    then obtain r where r: "getattr cls n = Some r" by auto
    from True have vis: "\<not> startswith n ''_'' \<or> n \<in> set special_names" by simp
    note step = class_member_step_show[OF vis r, of h ms ps vs hm]
    from True r show ?thesis
      by (simp add: step Cons.IH Let_def)
  qed
qed

text \<open>
  C10. The stub of a class, without the loop. Of the names of \<^verbatim>\<open>sorted(dir(cls))\<close>, those
  that begin with an underscore and are none of \<^verbatim>\<open>__init__\<close>, \<^verbatim>\<open>__new__\<close>, \<^verbatim>\<open>__call__\<close>,
  \<^verbatim>\<open>__str__\<close>, \<^verbatim>\<open>__repr__\<close> are skipped, and so are those whose value cannot be read. Every
  other name is rendered, by exactly one line: a callable by its method line, a property
  by \<^verbatim>\<open>name: Any\<close>, anything else by \<^verbatim>\<open>name: type\<close>. The stub is the class line, the
  docstring line if any, then the lines of the variables, of the properties and of the
  methods, each group in the order of the names; \<^verbatim>\<open>pass\<close> stands for the members exactly
  when no name is rendered.
\<close>

theorem class_member_rendering:
  "dump_class_stub h cls =
     (let shown = filter (\<lambda>n. (\<not> startswith n ''_''
                     \<or> n \<in> set [''__init__'', ''__new__'', ''__call__'', ''__str__'', ''__repr__''])
                     \<and> getattr cls n \<noteq> None) (sort (dir_names cls));
          member = (\<lambda>n. h (the (getattr cls n)));
          class_vars = map (\<lambda>n. ''    '' @ sanitize_name n @ '': '' @ get_type_annotation (member n))
                         (filter (\<lambda>n. \<not> is_callable (member n) \<and> \<not> isproperty (member n)) shown);
          properties = map (\<lambda>n. ''    '' @ sanitize_name n @ '': Any'')
                         (filter (\<lambda>n. \<not> is_callable (member n) \<and> isproperty (member n)) shown);
          methods = map (\<lambda>n. method_line n (sanitize_name n) (member n))
                      (filter (\<lambda>n. is_callable (member n)) shown);
          bases = filter (\<lambda>b. b \<noteq> ''object'') (base_names cls)
      in case attr_name cls of
           None \<Rightarrow> Inl AttributeError
         | Some cn \<Rightarrow>
             Inr (join ''\<newline>''
                    ([if bases \<noteq> []
                      then ''class '' @ sanitize_name cn @ ''('' @ join '', '' bases @ ''):''
                      else ''class '' @ sanitize_name cn @ '':'']
                     @ doc_lines cls
                     @ (if shown = [] then [''    pass'']
                        else class_vars @ properties @ methods))
                  @ ''\<newline>\<newline>''))"
  unfolding dump_class_stub_def collect_class_members_def class_member_loop
  by (simp add: Let_def special_names_def split: option.splits)

theorem class_member_rendering_witness:
  "dump_class_stub widget_heap widget =
     Inr ''class Widget:\<newline>    VERSION: str\<newline>    def __init__(self, *args, **kwargs): ...\<newline>    def resize(self, w: int, h: int) -> None: ...\<newline>\<newline>''"
  using class_member_rendering[of widget_heap widget]
  by (simp add: widget_def widget_heap_def plain_object_def
      startswith_def sanitize_name_def method_line_def doc_lines_def
      get_type_annotation_def inspect_type_def is_id_start_def is_id_continue_def)

section \<open>Properties of the member classifier\<close>

lemma member_step_skip:
  "startswith n ''_'' \<or> getattr mo n = None \<Longrightarrow> member_step h mo mn st n = st"
  by (auto simp: member_step_def split: prod.splits)

lemma member_step_class:
  assumes "\<not> startswith n ''_''" "getattr mo n = Some r" "isclass (h r)"
  shows "member_step h mo mn (ms, co, mp) n =
     (if owned_class mn (h r) \<and> co r = None
      then (ms \<lparr> m_classes := AList.update n r (m_classes ms) \<rparr>, co (r \<mapsto> n), mp (r \<mapsto> n))
      else (ms, co, mp))"
  using assms by (auto simp: member_step_def Let_def split: option.splits)

lemma member_step_module:
  assumes "\<not> startswith n ''_''" "getattr mo n = Some r" "\<not> isclass (h r)" "ismodule (h r)"
  shows "member_step h mo mn (ms, co, mp) n =
     (if qualifying_submodule mn n (h r)
      then (ms \<lparr> m_submodules := AList.update n r (m_submodules ms) \<rparr>, co, mp)
      else (ms, co, mp))"
  using assms by (simp add: member_step_def Let_def)

lemma member_step_callable:
  assumes "\<not> startswith n ''_''" "getattr mo n = Some r" "\<not> isclass (h r)" "\<not> ismodule (h r)"
    "is_callable (h r)"
  shows "member_step h mo mn (ms, co, mp) n =
     (if owned_function mn (h r)
      then (ms \<lparr> m_functions := AList.update n r (m_functions ms) \<rparr>, co, mp)
      else (ms, co, mp))"
  using assms by (simp add: member_step_def Let_def)

lemma member_step_variable:
  assumes "\<not> startswith n ''_''" "getattr mo n = Some r" "\<not> isclass (h r)" "\<not> ismodule (h r)"
    "\<not> is_callable (h r)"
  shows "member_step h mo mn (ms, co, mp) n =
     (ms \<lparr> m_variables := AList.update n r (m_variables ms) \<rparr>, co, mp)"
  using assms by (simp add: member_step_def Let_def)



lemma set_update_subset: "set (AList.update k v al) \<subseteq> insert (k, v) (set al)"
  by (induction al) auto


lemma class_inv_cong:
  "m_classes ms' = m_classes ms \<Longrightarrow> class_inv mo (ms', co, mp) = class_inv mo (ms, co, mp)"
  by (simp add: class_inv_def)

lemma class_inv_add:
  assumes inv: "class_inv mo (ms, co, mp)" and r: "getattr mo n = Some r" and fresh: "co r = None"
  shows "class_inv mo (ms \<lparr> m_classes := AList.update n r (m_classes ms) \<rparr>, co (r \<mapsto> n), mp (r \<mapsto> n))"
proof -
  from inv have d: "distinct (map fst (m_classes ms))"
    and a: "\<And>r n. co r = Some n \<Longrightarrow> getattr mo n = Some r \<and> map_of (m_classes ms) n = Some r \<and> mp r = Some n"
    and b: "\<And>n r. map_of (m_classes ms) n = Some r \<Longrightarrow> co r = Some n"
    unfolding class_inv_def prod.case by blast+
  have nokey: "map_of (m_classes ms) n = None"
  proof (cases "map_of (m_classes ms) n")
    case (Some r')
    from b[OF Some] have c: "co r' = Some n" .
    from a[OF c] r have "r' = r" by simp
    with c fresh show ?thesis by simp
  qed simp
  have 1: "distinct (map fst (AList.update n r (m_classes ms)))"
    using d by (rule distinct_update)
  have 2: "getattr mo n' = Some r' \<and> map_of (AList.update n r (m_classes ms)) n' = Some r' \<and> (mp (r \<mapsto> n)) r' = Some n'"
    if "(co (r \<mapsto> n)) r' = Some n'" for r' n'
  proof (cases "r' = r")
    case True
    with that have "n' = n" by simp
    with True r show ?thesis by (simp add: update_conv')
  next
    case False
    with that have c: "co r' = Some n'" by simp
    from a[OF c] have g: "getattr mo n' = Some r'" "map_of (m_classes ms) n' = Some r'" "mp r' = Some n'"
      by simp_all
    from g(2) nokey have "n' \<noteq> n" by auto
    with g False show ?thesis by (simp add: update_conv')
  qed
  have 3: "(co (r \<mapsto> n)) r' = Some n'" if "map_of (AList.update n r (m_classes ms)) n' = Some r'" for n' r'
  proof (cases "n' = n")
    case True
    with that have "r' = r" by (simp add: update_conv')
    with True show ?thesis by simp
  next
    case False
    with that have m: "map_of (m_classes ms) n' = Some r'" by (simp add: update_conv')
    from b[OF m] have c: "co r' = Some n'" .
    with fresh have "r' \<noteq> r" by auto
    with c show ?thesis by simp
  qed
  have sel: "m_classes (ms \<lparr> m_classes := AList.update n r (m_classes ms) \<rparr>) = AList.update n r (m_classes ms)"
    by simp
  show ?thesis
    unfolding class_inv_def prod.case sel using 1 2 3 by blast
qed

lemma class_inv_step:
  assumes "class_inv mo st"
  shows "class_inv mo (member_step h mo mn st n)"
proof -
  obtain ms co mp where st: "st = (ms, co, mp)" by (cases st) auto
  show ?thesis
  proof (cases "startswith n ''_'' \<or> getattr mo n = None")
    case True
    then show ?thesis using assms member_step_skip[of n mo h mn st] by simp
  next
    case False
    then obtain r where r: "\<not> startswith n ''_''" "getattr mo n = Some r" by auto
    consider (c) "isclass (h r)" | (m) "\<not> isclass (h r)" "ismodule (h r)"
      | (f) "\<not> isclass (h r)" "\<not> ismodule (h r)" "is_callable (h r)"
      | (v) "\<not> isclass (h r)" "\<not> ismodule (h r)" "\<not> is_callable (h r)" by blast
    then show ?thesis
    proof cases
      case c
      show ?thesis
      proof (cases "owned_class mn (h r) \<and> co r = None")
        case True
        then have eq: "member_step h mo mn st n =
            (ms \<lparr> m_classes := AList.update n r (m_classes ms) \<rparr>, co (r \<mapsto> n), mp (r \<mapsto> n))"
          using member_step_class[where h = h, OF r c, of mn ms co mp] st by simp
        from True have "co r = None" by simp
        from class_inv_add[OF assms[unfolded st] r(2) this] show ?thesis by (simp only: eq)
      next
        case False
        then have "member_step h mo mn st n = st"
          using member_step_class[where h = h, OF r c, of mn ms co mp] st by auto
        with assms show ?thesis by simp
      qed
    next
      case m
      have "member_step h mo mn st n = st \<or> member_step h mo mn st n = (ms \<lparr> m_submodules := AList.update n r (m_submodules ms) \<rparr>, co, mp)"
        using member_step_module[where h = h, OF r m, of mn ms co mp] st by auto
      then show ?thesis using assms st class_inv_cong[of "ms \<lparr> m_submodules := AList.update n r (m_submodules ms) \<rparr>" ms mo co mp]
        by auto
    next
      case f
      have "member_step h mo mn st n = st \<or> member_step h mo mn st n = (ms \<lparr> m_functions := AList.update n r (m_functions ms) \<rparr>, co, mp)"
        using member_step_callable[where h = h, OF r f, of mn ms co mp] st by auto
      then show ?thesis using assms st class_inv_cong[of "ms \<lparr> m_functions := AList.update n r (m_functions ms) \<rparr>" ms mo co mp]
        by auto
    next
      case v
      have "member_step h mo mn st n = (ms \<lparr> m_variables := AList.update n r (m_variables ms) \<rparr>, co, mp)"
        using member_step_variable[where h = h, OF r v, of mn ms co mp] st by auto
      then show ?thesis using assms st class_inv_cong[of "ms \<lparr> m_variables := AList.update n r (m_variables ms) \<rparr>" ms mo co mp]
        by auto
    qed
  qed
qed

lemma class_inv_loop:
  "class_inv mo st \<Longrightarrow> class_inv mo (foldl (member_step h mo mn) st ns)"
proof (induction ns arbitrary: st)
  case Nil
  then show ?case by simp
next
  case (Cons n ns)
  from Cons.IH[OF class_inv_step[OF Cons.prems, of h mn n]] show ?case by simp
qed



lemma member_step_submodules:
  assumes "member_step h mo mn (ms, co, mp) n = (ms', co', mp')"
    and "list_all (submodule_entry h mo mn) (m_submodules ms)"
  shows "list_all (submodule_entry h mo mn) (m_submodules ms')"
proof (cases "startswith n ''_'' \<or> getattr mo n = None")
  case True
  with assms member_step_skip[of n mo h mn "(ms, co, mp)"] show ?thesis by simp
next
  case False
  then obtain r where r: "\<not> startswith n ''_''" "getattr mo n = Some r" by auto
  consider (c) "isclass (h r)" | (m) "\<not> isclass (h r)" "ismodule (h r)"
    | (f) "\<not> isclass (h r)" "\<not> ismodule (h r)" "is_callable (h r)"
    | (v) "\<not> isclass (h r)" "\<not> ismodule (h r)" "\<not> is_callable (h r)" by blast
  then show ?thesis
  proof cases
    case c
    from assms(1) member_step_class[where h = h, OF r c, of mn ms co mp]
    have "m_submodules ms' = m_submodules ms" by (auto split: if_splits)
    with assms(2) show ?thesis by simp
  next
    case m
    show ?thesis
    proof (cases "qualifying_submodule mn n (h r)")
      case True
      with assms(1) member_step_module[where h = h, OF r m, of mn ms co mp]
      have eq: "m_submodules ms' = AList.update n r (m_submodules ms)" by auto
      have "submodule_entry h mo mn (n, r)"
        using True r m by (simp add: submodule_entry_def)
      with assms(2) set_update_subset[of n r "m_submodules ms"] show ?thesis
        unfolding eq list_all_iff by blast
    next
      case False
      with assms(1) member_step_module[where h = h, OF r m, of mn ms co mp]
      have "m_submodules ms' = m_submodules ms" by auto
      with assms(2) show ?thesis by simp
    qed
  next
    case f
    from assms(1) member_step_callable[where h = h, OF r f, of mn ms co mp]
    have "m_submodules ms' = m_submodules ms" by (auto split: if_splits)
    with assms(2) show ?thesis by simp
  next
    case v
    from assms(1) member_step_variable[where h = h, OF r v, of mn ms co mp]
    have "m_submodules ms' = m_submodules ms" by auto
    with assms(2) show ?thesis by simp
  qed
qed

lemma classify_submodules:
  "foldl (member_step h mo mn) (ms, co, mp) ns = (ms', co', mp') \<Longrightarrow>
   list_all (submodule_entry h mo mn) (m_submodules ms) \<Longrightarrow>
   list_all (submodule_entry h mo mn) (m_submodules ms')"
proof (induction ns arbitrary: ms co mp)
  case Nil
  then show ?case by simp
next
  case (Cons n ns)
  obtain ms1 co1 mp1 where s1: "member_step h mo mn (ms, co, mp) n = (ms1, co1, mp1)"
    by (cases "member_step h mo mn (ms, co, mp) n") auto
  with Cons.prems have f: "foldl (member_step h mo mn) (ms1, co1, mp1) ns = (ms', co', mp')" by simp
  from Cons.IH[OF f member_step_submodules[OF s1 Cons.prems(2)]] show ?case .
qed

lemma distinct_values:
  "distinct (map fst al) \<Longrightarrow>
   (\<And>k1 k2 v. map_of al k1 = Some v \<Longrightarrow> map_of al k2 = Some v \<Longrightarrow> k1 = k2) \<Longrightarrow>
   distinct (map snd al)"
proof (induction al)
  case Nil
  then show ?case by simp
next
  case (Cons p al)
  obtain k v where p: "p = (k, v)" by (cases p) auto
  from Cons.prems(1) p have d: "distinct (map fst al)" and nk: "k \<notin> fst ` set al" by auto
  have inj: "k1 = k2" if "map_of al k1 = Some w" "map_of al k2 = Some w" for k1 k2 w
  proof -
    from that nk have "k1 \<noteq> k" "k2 \<noteq> k" by (auto dest: map_of_SomeD intro: rev_image_eqI)
    with that p have "map_of (p # al) k1 = Some w" "map_of (p # al) k2 = Some w" by auto
    then show ?thesis by (rule Cons.prems(2))
  qed
  have "v \<notin> snd ` set al"
  proof
    assume "v \<in> snd ` set al"
    then obtain k' where k': "(k', v) \<in> set al" by auto
    with d have m: "map_of al k' = Some v" by simp
    from k' nk have ne: "k' \<noteq> k" by (auto intro: rev_image_eqI)
    with m p have 1: "map_of (p # al) k' = Some v" by simp
    from p have 2: "map_of (p # al) k = Some v" by simp
    from Cons.prems(2)[OF 1 2] ne show False by simp
  qed
  with Cons.IH[OF d inj] p show ?case by simp
qed

lemmas classifier_eval = get_module_members_def member_step_def empty_members_def
  getattr_name_def owned_class_def qualifying_submodule_def owned_function_def
  is_internal_module_def internal_prefixes_def startswith_def plain_object_def Let_def

text \<open>
  C1. When a class is first recorded under a candidate name that differs from the class's
  own \<^verbatim>\<open>__name__\<close>, the name chosen is the candidate, not the declared name: both branches
  of the conditional that chooses give the candidate. Here the class \<^verbatim>\<open>Real\<close> is reached
  as \<^verbatim>\<open>Alias\<close> first, is recorded and mapped as \<^verbatim>\<open>Alias\<close>, and its own name is then skipped
  as a duplicate.
\<close>

theorem chosen_name_is_alias:
  "attr_name (alias_heap 1) = Some ''Real''
   \<and> get_module_members alias_heap (alias_heap 0) Map.empty
       = (empty_members \<lparr> m_classes := [(''Alias'', 1)] \<rparr>, [1 \<mapsto> ''Alias''])"
  by (simp add: alias_heap_def classifier_eval)


lemma get_module_members_loop:
  assumes "get_module_members h mo mp = (ms, mp')"
  obtains co where
    "foldl (member_step h mo (getattr_name mo ''unknown'')) (empty_members, Map.empty, mp)
       (dir_names mo) = (ms, co, mp')"
  using assms by (auto simp: get_module_members_def Let_def split: prod.splits)

lemma class_inv_init: "class_inv mo (empty_members, Map.empty, mp)"
  by (simp add: class_inv_def empty_members_def)

lemma get_module_members_classes:
  assumes "get_module_members h mo mp = (ms, mp')"
  shows "distinct (map fst (m_classes ms))"
    and "distinct (map snd (m_classes ms))"
    and "(n, r) \<in> set (m_classes ms) \<Longrightarrow> getattr mo n = Some r \<and> mp' r = Some n"
proof -
  from assms obtain co where
    f: "foldl (member_step h mo (getattr_name mo ''unknown'')) (empty_members, Map.empty, mp)
       (dir_names mo) = (ms, co, mp')"
    by (rule get_module_members_loop)
  from class_inv_loop[OF class_inv_init, where h = h and mn = "getattr_name mo ''unknown''"
      and ns = "dir_names mo" and mo = mo and mp1 = mp] f
  have inv: "class_inv mo (ms, co, mp')" by simp
  then have d: "distinct (map fst (m_classes ms))"
    and a: "\<And>r n. co r = Some n \<Longrightarrow> getattr mo n = Some r \<and> map_of (m_classes ms) n = Some r \<and> mp' r = Some n"
    and b: "\<And>n r. map_of (m_classes ms) n = Some r \<Longrightarrow> co r = Some n"
    unfolding class_inv_def prod.case by blast+
  show "distinct (map fst (m_classes ms))" by (rule d)
  show "distinct (map snd (m_classes ms))"
  proof (rule distinct_values[OF d])
    fix k1 k2 v
    assume "map_of (m_classes ms) k1 = Some v" "map_of (m_classes ms) k2 = Some v"
    then have "co v = Some k1" "co v = Some k2" by (auto dest: b)
    then show "k1 = k2" by simp
  qed
  show "getattr mo n = Some r \<and> mp' r = Some n" if "(n, r) \<in> set (m_classes ms)"
  proof -
    from that d have "map_of (m_classes ms) n = Some r" by simp
    from a[OF b[OF this]] show ?thesis by simp
  qed
qed



section \<open>Properties of the file system\<close>

lemma ancestors_snoc: "set (ancestors (b @ [s])) = insert (b @ [s]) (set (ancestors b))"
  by (induction b) auto

lemma ancestors_self: "p \<noteq> [] \<Longrightarrow> p \<in> set (ancestors p)"
proof (induction p)
  case Nil
  then show ?case by simp
next
  case (Cons x p)
  then show ?case by (cases "p = []") auto
qed

lemma is_under_ancestors: "is_under p q \<Longrightarrow> p \<noteq> [] \<Longrightarrow> p \<in> set (ancestors q)"
proof (induction q arbitrary: p)
  case Nil
  then show ?case by (simp add: is_under_def)
next
  case (Cons y q)
  from Cons.prems obtain x p' where p: "p = x # p'" by (cases p) auto
  with Cons.prems(1) have xy: "x = y" and u: "is_under p' q" by (simp_all add: is_under_def)
  show ?case
  proof (cases "p' = []")
    case True
    with p xy show ?thesis by simp
  next
    case False
    from Cons.IH[OF u False] p xy show ?thesis by simp
  qed
qed

lemma strictly_under_snoc: "strictly_under b (b @ [s])"
  by (simp add: strictly_under_def is_under_def)

lemma strictly_under_snoc2: "strictly_under b (b @ [s] @ [t])"
  by (simp add: strictly_under_def is_under_def)

lemma strictly_under_trans: "strictly_under (b @ [s]) q \<Longrightarrow> strictly_under b q"
proof -
  assume a: "strictly_under (b @ [s]) q"
  then have t: "take (Suc (length b)) q = b @ [s]" by (simp add: strictly_under_def is_under_def)
  then have "take (length b) (take (Suc (length b)) q) = b" by simp
  then have "take (length b) q = b" by (simp add: min_def)
  moreover from t have "q \<noteq> b" by auto
  ultimately show ?thesis by (simp add: strictly_under_def is_under_def)
qed

lemma fs_frameI:
  assumes "dirs fs \<subseteq> dirs fs'"
    and "dirs fs' \<subseteq> dirs fs \<union> set (ancestors b) \<union> Collect (strictly_under b)"
    and "\<And>q. \<not> strictly_under b q \<Longrightarrow> files fs' q = files fs q"
    and "dom (files fs) \<subseteq> dom (files fs')"
  shows "fs_frame b fs fs'"
  unfolding fs_frame_def using assms by blast

lemma fs_frameD:
  assumes "fs_frame b fs fs'"
  shows "dirs fs \<subseteq> dirs fs'"
    and "dirs fs' \<subseteq> dirs fs \<union> set (ancestors b) \<union> Collect (strictly_under b)"
    and "\<And>q. \<not> strictly_under b q \<Longrightarrow> files fs' q = files fs q"
    and "dom (files fs) \<subseteq> dom (files fs')"
  using assms unfolding fs_frame_def by blast+

lemma fs_frame_refl: "fs_frame b fs fs"
  by (rule fs_frameI) auto

lemma fs_frame_trans:
  assumes a: "fs_frame b fs1 fs2" and c: "fs_frame b fs2 fs3"
  shows "fs_frame b fs1 fs3"
proof (rule fs_frameI)
  show "dirs fs1 \<subseteq> dirs fs3" using fs_frameD(1)[OF a] fs_frameD(1)[OF c] by blast
  show "dirs fs3 \<subseteq> dirs fs1 \<union> set (ancestors b) \<union> Collect (strictly_under b)"
    using fs_frameD(2)[OF a] fs_frameD(2)[OF c] by blast
  show "files fs3 q = files fs1 q" if "\<not> strictly_under b q" for q
    using fs_frameD(3)[OF a that] fs_frameD(3)[OF c that] by simp
  show "dom (files fs1) \<subseteq> dom (files fs3)" using fs_frameD(4)[OF a] fs_frameD(4)[OF c] by blast
qed

lemma fs_frame_up:
  assumes a: "fs_frame (b @ [s]) fs fs'"
  shows "fs_frame b fs fs'"
proof (rule fs_frameI)
  show "dirs fs \<subseteq> dirs fs'" by (rule fs_frameD(1)[OF a])
  have "strictly_under b q" if "strictly_under (b @ [s]) q" for q
    using that by (rule strictly_under_trans)
  then have sub: "Collect (strictly_under (b @ [s])) \<subseteq> Collect (strictly_under b)" by blast
  have "set (ancestors (b @ [s])) \<subseteq> set (ancestors b) \<union> Collect (strictly_under b)"
    using strictly_under_snoc[of b s] by (auto simp: ancestors_snoc)
  with sub fs_frameD(2)[OF a]
  show "dirs fs' \<subseteq> dirs fs \<union> set (ancestors b) \<union> Collect (strictly_under b)" by blast
  show "files fs' q = files fs q" if "\<not> strictly_under b q" for q
  proof (rule fs_frameD(3)[OF a])
    from that strictly_under_trans[of b s q] show "\<not> strictly_under (b @ [s]) q" by blast
  qed
  show "dom (files fs) \<subseteq> dom (files fs')" by (rule fs_frameD(4)[OF a])
qed

lemma mkdir_parents_frame:
  assumes "mkdir_parents (b @ [s]) fs = Inr fs'"
  shows "fs_frame b fs fs'"
proof -
  from assms have eq: "fs' = fs \<lparr> dirs := dirs fs \<union> set (ancestors (b @ [s])) \<rparr>"
    by (simp add: mkdir_parents_def split: if_splits)
  show ?thesis
  proof (rule fs_frameI)
    show "dirs fs \<subseteq> dirs fs'" by (simp add: eq)
    show "dirs fs' \<subseteq> dirs fs \<union> set (ancestors b) \<union> Collect (strictly_under b)"
      using strictly_under_snoc[of b s] by (auto simp: eq ancestors_snoc)
    show "files fs' q = files fs q" for q by (simp add: eq)
    show "dom (files fs) \<subseteq> dom (files fs')" by (simp add: eq)
  qed
qed

lemma write_init_frame:
  assumes "write_init (b @ [s] @ [t]) c fs = Inr fs'"
  shows "fs_frame b fs fs'"
proof -
  from assms have "\<exists>w. fs' = fs \<lparr> files := (files fs) (b @ [s] @ [t] \<mapsto> w) \<rparr>"
    by (auto simp: write_init_def Let_def split: if_splits)
  then obtain w where eq: "fs' = fs \<lparr> files := (files fs) (b @ [s] @ [t] \<mapsto> w) \<rparr>" ..
  show ?thesis
  proof (rule fs_frameI)
    show "dirs fs \<subseteq> dirs fs'" by (simp add: eq)
    show "dirs fs' \<subseteq> dirs fs \<union> set (ancestors b) \<union> Collect (strictly_under b)"
      by (auto simp: eq)
    show "files fs' q = files fs q" if "\<not> strictly_under b q" for q
    proof -
      from that strictly_under_snoc2[of b s t] have "q \<noteq> b @ [s] @ [t]" by blast
      then show ?thesis by (simp add: eq)
    qed
    show "dom (files fs) \<subseteq> dom (files fs')" by (auto simp: eq)
  qed
qed



section \<open>Properties of the tree builder\<close>

lemma create_module_structure_visited:
  "module_key base (effective_name h m narg) \<in> processed_modules g \<Longrightarrow>
   create_module_structure (Suc d) h m base narg g fs = Some (None, g, fs)"
  by (simp add: module_key_def effective_name_def Let_def)

lemma create_module_structure_cases:
  assumes "create_module_structure (Suc d) h m base narg g fs = Some (e, g', fs')"
  obtains (visited) "module_key base (effective_name h m narg) \<in> processed_modules g"
      "e = None" "g' = g" "fs' = fs"
  | (mkdir_failed) x where
      "module_key base (effective_name h m narg) \<notin> processed_modules g"
      "mkdir_parents (module_dir base (effective_name h m narg)) fs = Inl x"
      "e = Some x" "g' = mark_module (module_key base (effective_name h m narg)) g" "fs' = fs"
  | (classes_failed) fs1 ms mp x c where
      "module_key base (effective_name h m narg) \<notin> processed_modules g"
      "mkdir_parents (module_dir base (effective_name h m narg)) fs = Inr fs1"
      "get_module_members h (h m) (class_name_mapping g) = (ms, mp)"
      "render_classes h (effective_name h m narg) (m_classes ms)
         (mark_module (module_key base (effective_name h m narg)) g \<lparr> class_name_mapping := mp \<rparr>)
         [''from typing import Any\<newline>''] = (Some x, g', c)"
      "e = Some x" "fs' = fs1"
  | (functions_failed) fs1 ms mp x c where
      "module_key base (effective_name h m narg) \<notin> processed_modules g"
      "mkdir_parents (module_dir base (effective_name h m narg)) fs = Inr fs1"
      "get_module_members h (h m) (class_name_mapping g) = (ms, mp)"
      "render_classes h (effective_name h m narg) (m_classes ms)
         (mark_module (module_key base (effective_name h m narg)) g \<lparr> class_name_mapping := mp \<rparr>)
         [''from typing import Any\<newline>''] = (None, g', c)"
      "render_functions h (m_functions ms) c = Inl x"
      "e = Some x" "fs' = fs1"
  | (write_failed) fs1 ms mp g2 c1 c2 fs3 c3 x where
      "module_key base (effective_name h m narg) \<notin> processed_modules g"
      "mkdir_parents (module_dir base (effective_name h m narg)) fs = Inr fs1"
      "get_module_members h (h m) (class_name_mapping g) = (ms, mp)"
      "render_classes h (effective_name h m narg) (m_classes ms)
         (mark_module (module_key base (effective_name h m narg)) g \<lparr> class_name_mapping := mp \<rparr>)
         [''from typing import Any\<newline>''] = (None, g2, c1)"
      "render_functions h (m_functions ms) c1 = Inr c2"
      "recurse_submodules (descend d h) h (module_dir base (effective_name h m narg))
         (m_submodules ms) g2 fs1 (c2 @ render_variables h (m_variables ms)) = Some (g', fs3, c3)"
      "write_init (module_dir base (effective_name h m narg) @ [''__init__.pyi'']) c3 fs3 = Inl x"
      "e = Some x" "fs' = fs3"
  | (written) fs1 ms mp g2 c1 c2 fs3 c3 where
      "module_key base (effective_name h m narg) \<notin> processed_modules g"
      "mkdir_parents (module_dir base (effective_name h m narg)) fs = Inr fs1"
      "get_module_members h (h m) (class_name_mapping g) = (ms, mp)"
      "render_classes h (effective_name h m narg) (m_classes ms)
         (mark_module (module_key base (effective_name h m narg)) g \<lparr> class_name_mapping := mp \<rparr>)
         [''from typing import Any\<newline>''] = (None, g2, c1)"
      "render_functions h (m_functions ms) c1 = Inr c2"
      "recurse_submodules (descend d h) h (module_dir base (effective_name h m narg))
         (m_submodules ms) g2 fs1 (c2 @ render_variables h (m_variables ms)) = Some (g', fs3, c3)"
      "write_init (module_dir base (effective_name h m narg) @ [''__init__.pyi'']) c3 fs3 = Inr fs'"
      "e = None"
  using assms
  apply (simp add: module_key_def effective_name_def module_dir_def mark_module_def descend_def Let_def
      split: if_splits sum.splits prod.splits option.splits)
  apply blast+
  done

lemma render_classes_generator:
  "render_classes h mn cs g c = (e, g', c') \<Longrightarrow>
     processed_modules g' = processed_modules g
     \<and> class_name_mapping g' = class_name_mapping g
     \<and> processed_class_objects g \<subseteq> processed_class_objects g'
     \<and> processed_class_objects g' \<subseteq> processed_class_objects g \<union> snd ` set cs
     \<and> (e = None \<longrightarrow> processed_class_objects g' = processed_class_objects g \<union> snd ` set cs)"
proof (induction h mn cs g c rule: render_classes.induct)
  case (1 h mn g c)
  then show ?case by simp
next
  case (2 h mn cn r rest g c)
  show ?case
  proof (cases "r \<in> processed_class_objects g")
    case True
    with "2.prems" "2.IH"(1)[OF True refl refl refl] show ?thesis
      by (auto simp: Let_def)
  next
    case False
    let ?g = "g \<lparr> processed_class_objects := insert r (processed_class_objects g),
                   processed_classes := insert (mn @ ''.'' @ cn) (processed_classes g) \<rparr>"
    show ?thesis
    proof (cases "dump_class_stub h (h r)")
      case (Inl x)
      with False "2.prems" have "g' = ?g" "e = Some x" by (auto simp: Let_def)
      then show ?thesis by auto
    next
      case (Inr stub)
      with False "2.prems" have "render_classes h mn rest ?g (c @ [stub]) = (e, g', c')"
        by (simp add: Let_def)
      from "2.IH"(2)[OF False refl Inr this] show ?thesis by auto
    qed
  qed
qed

text \<open>A relation that every recursive call respects is respected by the submodule loop.\<close>

lemma recurse_submodules_rel:
  assumes refl: "\<And>x. R x x"
    and trans: "\<And>x y z. R x y \<Longrightarrow> R y z \<Longrightarrow> R x z"
    and step: "\<And>sn r g fs e g' fs'. (sn, r) \<in> set subs \<Longrightarrow>
        recurse r dir (getattr_name (h r) sn) g fs = Some (e, g', fs') \<Longrightarrow> R (g, fs) (g', fs')"
    and run: "recurse_submodules recurse h dir subs g fs c = Some (g', fs', c')"
  shows "R (g, fs) (g', fs')"
  using step run
proof (induction subs arbitrary: g fs c)
  case Nil
  then show ?case using refl by simp
next
  case (Cons p subs)
  obtain sn r where p: "p = (sn, r)" by (cases p) auto
  from Cons.prems(2) p obtain e g1 fs1 where
    call: "recurse r dir (getattr_name (h r) sn) g fs = Some (e, g1, fs1)"
    by (cases "recurse r dir (getattr_name (h r) sn) g fs") auto
  from Cons.prems(2) p call obtain c1 where
    rest: "recurse_submodules recurse h dir subs g1 fs1 c1 = Some (g', fs', c')"
    by (cases e) auto
  have 1: "R (g, fs) (g1, fs1)" using Cons.prems(1)[OF _ call] p by simp
  have 2: "R (g1, fs1) (g', fs')"
  proof (rule Cons.IH[OF _ rest])
    fix sn r g fs e g' fs'
    assume "(sn, r) \<in> set subs" "recurse r dir (getattr_name (h r) sn) g fs = Some (e, g', fs')"
    then show "R (g, fs) (g', fs')" using Cons.prems(1)[of sn r g fs e g' fs'] by simp
  qed
  from trans[OF 1 2] show ?case .
qed

lemma generator_grows_refl: "generator_grows g g"
  by (simp add: generator_grows_def)

lemma generator_grows_trans:
  "generator_grows g1 g2 \<Longrightarrow> generator_grows g2 g3 \<Longrightarrow> generator_grows g1 g3"
  by (auto simp: generator_grows_def)

lemma create_module_structure_grows:
  "create_module_structure d h m base narg g fs = Some (e, g', fs') \<Longrightarrow>
     generator_grows g g'
     \<and> module_key base (effective_name h m narg) \<in> processed_modules g'"
proof (induction d arbitrary: m base narg g fs e g' fs')
  case 0
  then show ?case by simp
next
  case (Suc d)
  let ?key = "module_key base (effective_name h m narg)"
  have mark: "generator_grows g (mark_module ?key g \<lparr> class_name_mapping := mp \<rparr>)"
      "?key \<in> processed_modules (mark_module ?key g \<lparr> class_name_mapping := mp \<rparr>)" for mp
    by (auto simp: generator_grows_def mark_module_def)
  have cls: "generator_grows g g2 \<and> ?key \<in> processed_modules g2"
    if "render_classes h mn cs (mark_module ?key g \<lparr> class_name_mapping := mp \<rparr>) c = (x, g2, c1)"
    for mn cs mp c x g2 c1
    using render_classes_generator[OF that] mark[of mp] by (auto simp: generator_grows_def)
  have sub: "generator_grows g2 g3"
    if "recurse_submodules (descend d h) h dir subs g2 fs1 c = Some (g3, fs3, c3)"
    for dir subs g2 fs1 c g3 fs3 c3
  proof -
    have "(\<lambda>a b. generator_grows (fst a) (fst b)) (g2, fs1) (g3, fs3)"
    proof (rule recurse_submodules_rel[where R = "\<lambda>a b. generator_grows (fst a) (fst b)", OF _ _ _ that])
      show "generator_grows (fst x) (fst x)" for x :: "generator \<times> filesystem"
        by (rule generator_grows_refl)
      show "generator_grows (fst x) (fst y) \<Longrightarrow> generator_grows (fst y) (fst z)
          \<Longrightarrow> generator_grows (fst x) (fst z)" for x y z :: "generator \<times> filesystem"
        by (rule generator_grows_trans)
      show "generator_grows (fst (ga, fsa)) (fst (gb, fsb))"
        if "descend d h r dir (getattr_name (h r) sn) ga fsa = Some (ea, gb, fsb)"
        for sn r ga fsa ea gb fsb
        using Suc.IH[of r dir "Some (getattr_name (h r) sn)" ga fsa ea gb fsb] that
        by (simp add: descend_def)
    qed
    then show ?thesis by simp
  qed
  from Suc.prems show ?case
  proof (cases rule: create_module_structure_cases)
    case visited
    then show ?thesis by (simp add: generator_grows_refl)
  next
    case (mkdir_failed x)
    then show ?thesis by (auto simp: generator_grows_def mark_module_def)
  next
    case (classes_failed fs1 ms mp x c)
    from cls[OF classes_failed(4)] show ?thesis .
  next
    case (functions_failed fs1 ms mp x c)
    from cls[OF functions_failed(4)] show ?thesis .
  next
    case (write_failed fs1 ms mp g2 c1 c2 fs3 c3 x)
    from cls[OF write_failed(4)] sub[OF write_failed(6)] show ?thesis
      by (auto simp: generator_grows_def)
  next
    case (written fs1 ms mp g2 c1 c2 fs3 c3)
    from cls[OF written(4)] sub[OF written(6)] show ?thesis
      by (auto simp: generator_grows_def)
  qed
qed

lemma create_module_structure_Suc:
  "create_module_structure (Suc d) h m base narg g fs =
     (if module_key base (effective_name h m narg) \<in> processed_modules g then Some (None, g, fs)
      else module_body (descend d h) h m base (effective_name h m narg) g fs)"
  unfolding module_body_def module_key_def effective_name_def module_dir_def mark_module_def
    descend_def
  by (simp add: Let_def split: sum.splits prod.splits option.splits)

lemma recurse_submodules_cong:
  assumes "\<And>sn r g fs. (sn, r) \<in> set subs \<Longrightarrow>
      recurse r dir (getattr_name (h r) sn) g fs = recurse' r dir (getattr_name (h r) sn) g fs"
  shows "recurse_submodules recurse h dir subs g fs c = recurse_submodules recurse' h dir subs g fs c"
  using assms
proof (induction subs arbitrary: g fs c)
  case Nil
  then show ?case by simp
next
  case (Cons p subs)
  obtain sn r where p: "p = (sn, r)" by (cases p) auto
  have call: "recurse r dir (getattr_name (h r) sn) g fs = recurse' r dir (getattr_name (h r) sn) g fs"
    using Cons.prems[of sn r g fs] p by simp
  have rest: "recurse_submodules recurse h dir subs g1 fs1 c1
      = recurse_submodules recurse' h dir subs g1 fs1 c1" for g1 fs1 c1
  proof (rule Cons.IH)
    fix sn r g fs
    assume "(sn, r) \<in> set subs"
    then show "recurse r dir (getattr_name (h r) sn) g fs = recurse' r dir (getattr_name (h r) sn) g fs"
      using Cons.prems[of sn r g fs] by simp
  qed
  show ?case unfolding p by (simp add: call rest split: option.splits prod.splits)
qed

lemma recurse_submodules_returns:
  assumes "\<And>sn r g fs. (sn, r) \<in> set subs \<Longrightarrow>
      recurse r dir (getattr_name (h r) sn) g fs \<noteq> None"
  shows "recurse_submodules recurse h dir subs g fs c \<noteq> None"
  using assms
proof (induction subs arbitrary: g fs c)
  case Nil
  then show ?case by simp
next
  case (Cons p subs)
  obtain sn r where p: "p = (sn, r)" by (cases p) auto
  from Cons.prems[of sn r g fs] p obtain e g1 fs1 where
    call: "recurse r dir (getattr_name (h r) sn) g fs = Some (e, g1, fs1)" by auto
  have rest: "recurse_submodules recurse h dir subs g1 fs1 c1 \<noteq> None" for c1
  proof (rule Cons.IH)
    fix sn r g fs
    assume "(sn, r) \<in> set subs"
    then show "recurse r dir (getattr_name (h r) sn) g fs \<noteq> None"
      using Cons.prems[of sn r g fs] by simp
  qed
  show ?case unfolding p using call rest by (cases e) auto
qed

lemma module_body_cong:
  assumes "\<And>sn r g fs. recurse r (module_dir base mn) (getattr_name (h r) sn) g fs
      = recurse' r (module_dir base mn) (getattr_name (h r) sn) g fs"
  shows "module_body recurse h m base mn g fs = module_body recurse' h m base mn g fs"
proof -
  have "recurse_submodules recurse h (module_dir base mn) subs g2 fs2 c
      = recurse_submodules recurse' h (module_dir base mn) subs g2 fs2 c" for subs g2 fs2 c
    by (rule recurse_submodules_cong) (rule assms)
  then have eq: "recurse_submodules recurse h (module_dir base mn)
      = recurse_submodules recurse' h (module_dir base mn)"
    by (intro ext)
  show ?thesis unfolding module_body_def eq ..
qed

lemma get_module_members_submodules:
  assumes "get_module_members h mo mp = (ms, mp')"
  shows "list_all (submodule_entry h mo (getattr_name mo ''unknown'')) (m_submodules ms)"
proof -
  from assms obtain co where
    f: "foldl (member_step h mo (getattr_name mo ''unknown'')) (empty_members, Map.empty, mp)
       (dir_names mo) = (ms, co, mp')"
    by (rule get_module_members_loop)
  from classify_submodules[OF f] show ?thesis by (simp add: empty_members_def)
qed

lemma module_body_returns:
  assumes "\<And>sn r g fs. submodule_entry h (h m) (getattr_name (h m) ''unknown'') (sn, r) \<Longrightarrow>
      recurse r (module_dir base mn) (getattr_name (h r) sn) g fs \<noteq> None"
  shows "module_body recurse h m base mn g fs \<noteq> None"
proof (cases "mkdir_parents (module_dir base mn) fs")
  case (Inl e)
  then show ?thesis by (simp add: module_body_def)
next
  case (Inr fs1)
  obtain ms mp where gm: "get_module_members h (h m) (class_name_mapping g) = (ms, mp)"
    by (cases "get_module_members h (h m) (class_name_mapping g)") auto
  from get_module_members_submodules[OF gm]
  have ent: "list_all (submodule_entry h (h m) (getattr_name (h m) ''unknown'')) (m_submodules ms)" .
  have rec: "recurse_submodules recurse h (module_dir base mn) (m_submodules ms) g2 fs2 c \<noteq> None"
    for g2 fs2 c
  proof (rule recurse_submodules_returns)
    fix sn r g fs
    assume "(sn, r) \<in> set (m_submodules ms)"
    with ent have "submodule_entry h (h m) (getattr_name (h m) ''unknown'') (sn, r)"
      by (auto simp: list_all_iff)
    then show "recurse r (module_dir base mn) (getattr_name (h r) sn) g fs \<noteq> None" by (rule assms)
  qed
  obtain x g2 c1 where rc: "render_classes h mn (m_classes ms)
      (mark_module (module_key base mn) g \<lparr> class_name_mapping := mp \<rparr>)
      [''from typing import Any\<newline>''] = (x, g2, c1)"
    by (metis prod_cases3)
  show ?thesis
  proof (cases x)
    case (Some e)
    with Inr gm rc show ?thesis by (simp add: module_body_def)
  next
    case None
    show ?thesis
    proof (cases "render_functions h (m_functions ms) c1")
      case (Inl e)
      with None Inr gm rc show ?thesis by (simp add: module_body_def)
    next
      case (Inr c2)
      from rec[of g2 fs1 "c2 @ render_variables h (m_variables ms)"] obtain g3 fs3 c3 where
        "recurse_submodules recurse h (module_dir base mn) (m_submodules ms) g2 fs1
           (c2 @ render_variables h (m_variables ms)) = Some (g3, fs3, c3)" by auto
      with None Inr \<open>mkdir_parents (module_dir base mn) fs = Inr fs1\<close> gm rc show ?thesis
        by (simp add: module_body_def split: sum.splits)
    qed
  qed
qed

lemma recurse_submodules_mono:
  assumes le: "\<And>r p n g fs out. recurse r p n g fs = Some out \<Longrightarrow> recurse' r p n g fs = Some out"
    and run: "recurse_submodules recurse h dir subs g fs c = Some x"
  shows "recurse_submodules recurse' h dir subs g fs c = Some x"
  using run
proof (induction subs arbitrary: g fs c)
  case Nil
  then show ?case by simp
next
  case (Cons p subs)
  obtain sn r where p: "p = (sn, r)" by (cases p) auto
  from Cons.prems p obtain e g1 fs1 where
    call: "recurse r dir (getattr_name (h r) sn) g fs = Some (e, g1, fs1)"
    by (cases "recurse r dir (getattr_name (h r) sn) g fs") auto
  note call' = le[OF call]
  show ?case
  proof (cases e)
    case None
    with Cons.prems p call have
      "recurse_submodules recurse h dir subs g1 fs1 (c @ [''from . import '' @ sanitize_name sn]) = Some x"
      by simp
    from Cons.IH[OF this] None call' p show ?thesis by simp
  next
    case (Some a)
    with Cons.prems p call have "recurse_submodules recurse h dir subs g1 fs1 c = Some x"
      by simp
    from Cons.IH[OF this] Some call' p show ?thesis by simp
  qed
qed

lemma module_body_mono:
  assumes le: "\<And>r p n g fs out. recurse r p n g fs = Some out \<Longrightarrow> recurse' r p n g fs = Some out"
    and run: "module_body recurse h m base mn g fs = Some out"
  shows "module_body recurse' h m base mn g fs = Some out"
proof -
  have sub: "recurse_submodules recurse' h dir subs g2 fs2 c = Some x"
    if "recurse_submodules recurse h dir subs g2 fs2 c = Some x" for dir subs g2 fs2 c x
    using le that by (rule recurse_submodules_mono)
  show ?thesis
  proof (cases "mkdir_parents (module_dir base mn) fs")
    case (Inl e)
    with run show ?thesis by (simp add: module_body_def)
  next
    case (Inr fs1)
    obtain ms mp where gm: "get_module_members h (h m) (class_name_mapping g) = (ms, mp)"
      by (cases "get_module_members h (h m) (class_name_mapping g)") auto
    obtain x g2 c1 where rc: "render_classes h mn (m_classes ms)
        (mark_module (module_key base mn) g \<lparr> class_name_mapping := mp \<rparr>)
        [''from typing import Any\<newline>''] = (x, g2, c1)"
      by (metis prod_cases3)
    show ?thesis
    proof (cases x)
      case (Some e)
      with run Inr gm rc show ?thesis by (simp add: module_body_def)
    next
      case None
      show ?thesis
      proof (cases "render_functions h (m_functions ms) c1")
        case (Inl e)
        with run None Inr gm rc show ?thesis by (simp add: module_body_def)
      next
        case c2: (Inr c2)
        show ?thesis
        proof (cases "recurse_submodules recurse h (module_dir base mn) (m_submodules ms) g2 fs1
            (c2 @ render_variables h (m_variables ms))")
          case n: None
          with run None Inr gm rc c2 show ?thesis by (simp add: module_body_def)
        next
          case y: (Some y)
          note y' = sub[OF y]
          from run None Inr gm rc c2 y y' show ?thesis by (simp add: module_body_def)
        qed
      qed
    qed
  qed
qed

lemma create_module_structure_more_depth:
  "create_module_structure d h m base narg g fs = Some out \<Longrightarrow>
   create_module_structure (d + k) h m base narg g fs = Some out"
proof (induction d arbitrary: m base narg g fs out)
  case 0
  then show ?case by simp
next
  case (Suc d)
  show ?case
  proof (cases "module_key base (effective_name h m narg) \<in> processed_modules g")
    case True
    with Suc.prems show ?thesis
      by (simp add: create_module_structure_Suc del: create_module_structure.simps)
  next
    case False
    with Suc.prems have run: "module_body (descend d h) h m base (effective_name h m narg) g fs = Some out"
      by (simp add: create_module_structure_Suc del: create_module_structure.simps)
    have "module_body (descend (d + k) h) h m base (effective_name h m narg) g fs = Some out"
    proof (rule module_body_mono[OF _ run])
      fix r p n g fs out
      assume "descend d h r p n g fs = Some out"
      then show "descend (d + k) h r p n g fs = Some out"
        using Suc.IH[of r p "Some n" g fs out] by (simp add: descend_def)
    qed
    with False show ?thesis
      by (simp add: create_module_structure_Suc del: create_module_structure.simps)
  qed
qed

lemma startswith_length: "startswith s p \<Longrightarrow> length p \<le> length s"
  unfolding startswith_def by (metis length_take min.cobounded1)

lemma qualifying_submodule_longer:
  assumes "qualifying_submodule mn sn obj"
  shows "length mn < length (getattr_name obj sn)"
proof -
  from assms have "startswith (getattr_name obj sn) (mn @ ''.'')"
    by (simp add: qualifying_submodule_def Let_def)
  from startswith_length[OF this] show ?thesis by simp
qed

lemma create_module_structure_returns:
  assumes named: "\<And>r. ismodule (h r) \<Longrightarrow> \<exists>n. attr_name (h r) = Some n \<and> length n \<le> L"
  shows "narg = None \<or> narg = Some (getattr_name (h m) ''unknown'') \<Longrightarrow>
     L < d + length (getattr_name (h m) ''unknown'') \<Longrightarrow> 0 < d \<Longrightarrow>
     create_module_structure d h m base narg g fs \<noteq> None"
proof (induction d arbitrary: m base narg g fs)
  case 0
  then show ?case by simp
next
  case (Suc d)
  let ?mn = "getattr_name (h m) ''unknown''"
  from Suc.prems(1) have en: "effective_name h m narg = ?mn"
    by (auto simp: effective_name_def)
  have "module_body (descend d h) h m base ?mn g fs \<noteq> None"
  proof (rule module_body_returns)
    fix sn r g fs
    assume "submodule_entry h (h m) ?mn (sn, r)"
    then have mo: "ismodule (h r)" and q: "qualifying_submodule ?mn sn (h r)"
      by (simp_all add: submodule_entry_def)
    from named[OF mo] obtain n where n: "attr_name (h r) = Some n" "length n \<le> L" by auto
    then have gn: "getattr_name (h r) sn = n" "getattr_name (h r) ''unknown'' = n"
      by (simp_all add: getattr_name_def)
    from qualifying_submodule_longer[OF q] gn have longer: "length ?mn < length n" by simp
    with Suc.prems(2) have b: "L < d + length n" by simp
    with n(2) have pos: "0 < d" by simp
    have "create_module_structure d h r (module_dir base ?mn) (Some n) g fs \<noteq> None"
    proof (rule Suc.IH)
      show "Some n = None \<or> Some n = Some (getattr_name (h r) ''unknown'')"
        using gn(2) by simp
      show "L < d + length (getattr_name (h r) ''unknown'')"
        using b gn(2) by simp
      show "0 < d" by (rule pos)
    qed
    then show "descend d h r (module_dir base ?mn) (getattr_name (h r) sn) g fs \<noteq> None"
      by (simp add: descend_def gn)
  qed
  then show ?case
    unfolding create_module_structure_Suc en by simp
qed

lemma create_module_structure_frame:
  "create_module_structure d h m base narg g fs = Some (e, g', fs') \<Longrightarrow> fs_frame base fs fs'"
proof (induction d arbitrary: m base narg g fs e g' fs')
  case 0
  then show ?case by simp
next
  case (Suc d)
  let ?dir = "module_dir base (effective_name h m narg)"
  have dir: "?dir = base @ [sanitize_name (last_segment (effective_name h m narg))]"
    by (simp add: module_dir_def)
  have sub: "fs_frame base fs1 fs3"
    if "recurse_submodules (descend d h) h ?dir subs g2 fs1 c = Some (g3, fs3, c3)"
    for subs g2 fs1 c g3 fs3 c3
  proof -
    have "(\<lambda>a b. fs_frame ?dir (snd a) (snd b)) (g2, fs1) (g3, fs3)"
    proof (rule recurse_submodules_rel[where R = "\<lambda>a b. fs_frame ?dir (snd a) (snd b)", OF _ _ _ that])
      show "fs_frame ?dir (snd x) (snd x)" for x :: "generator \<times> filesystem"
        by (rule fs_frame_refl)
      show "fs_frame ?dir (snd x) (snd y) \<Longrightarrow> fs_frame ?dir (snd y) (snd z)
          \<Longrightarrow> fs_frame ?dir (snd x) (snd z)" for x y z :: "generator \<times> filesystem"
        by (rule fs_frame_trans)
      show "fs_frame ?dir (snd (ga, fsa)) (snd (gb, fsb))"
        if "descend d h r ?dir (getattr_name (h r) sn) ga fsa = Some (ea, gb, fsb)"
        for sn r ga fsa ea gb fsb
        using Suc.IH[of r ?dir "Some (getattr_name (h r) sn)" ga fsa ea gb fsb] that
        by (simp add: descend_def)
    qed
    then have "fs_frame ?dir fs1 fs3" by simp
    then show ?thesis unfolding dir by (rule fs_frame_up)
  qed
  have mk: "fs_frame base fs fs1" if "mkdir_parents ?dir fs = Inr fs1" for fs1
    using that unfolding dir by (rule mkdir_parents_frame)
  have wr: "fs_frame base fs3 fs4" if "write_init (?dir @ [''__init__.pyi'']) c fs3 = Inr fs4"
    for c fs3 fs4
    using that unfolding dir by (simp add: write_init_frame)
  from Suc.prems show ?case
  proof (cases rule: create_module_structure_cases)
    case visited
    then show ?thesis by (simp add: fs_frame_refl)
  next
    case (mkdir_failed x)
    then show ?thesis by (simp add: fs_frame_refl)
  next
    case (classes_failed fs1 ms mp x c)
    with mk show ?thesis by simp
  next
    case (functions_failed fs1 ms mp x c)
    with mk show ?thesis by simp
  next
    case (write_failed fs1 ms mp g2 c1 c2 fs3 c3 x)
    from mk[OF write_failed(2)] sub[OF write_failed(6)] write_failed(9)
    show ?thesis by (auto intro: fs_frame_trans)
  next
    case (written fs1 ms mp g2 c1 c2 fs3 c3)
    from fs_frame_trans[OF fs_frame_trans[OF mk[OF written(2)] sub[OF written(6)]] wr[OF written(7)]]
    show ?thesis .
  qed
qed

lemma cleared_output:
  assumes wf: "parents_exist fs" and ne: "out \<noteq> []"
    and c: "(if out \<in> dirs fs \<or> files fs out \<noteq> None then rmtree out fs else Inr fs) = Inr fs0"
    and u: "is_under out q"
  shows "q \<notin> dirs fs0 \<and> files fs0 q = None"
proof (cases "out \<in> dirs fs \<or> files fs out \<noteq> None")
  case True
  with c have "fs0 = \<lparr> dirs = Set.filter (\<lambda>q. \<not> is_under out q) (dirs fs),
      files = (\<lambda>q. if is_under out q then None else files fs q) \<rparr>"
    by (simp add: rmtree_def split: if_splits)
  with u show ?thesis by simp
next
  case False
  with c have eq: "fs0 = fs" by simp
  show ?thesis
  proof (rule ccontr)
    assume "\<not> (q \<notin> dirs fs0 \<and> files fs0 q = None)"
    with eq have ex: "q \<in> dirs fs \<or> files fs q \<noteq> None" by simp
    from is_under_ancestors[OF u ne] have "out \<in> set (ancestors q)" .
    with wf ex have "out = q \<or> out \<in> dirs fs" unfolding parents_exist_def by blast
    with False ex show False by auto
  qed
qed

lemma prepare_output_again:
  assumes wf: "parents_exist fs" and ne: "out \<noteq> []"
    and p: "prepare_output out True fs = (None, fs1)"
    and fr: "fs_frame out fs1 fsR"
  shows "prepare_output out True fsR = (None, fs1)"
proof -
  from p obtain fs0 where
    c: "(if out \<in> dirs fs \<or> files fs out \<noteq> None then rmtree out fs else Inr fs) = Inr fs0"
    and mk: "mkdir_parents out fs0 = Inr fs1"
    by (auto simp: prepare_output_def split: sum.splits)
  note clean = cleared_output[OF wf ne c]
  from mk have nofile: "files fs0 out = None"
    and noanc: "\<not> list_ex (\<lambda>q. files fs0 q \<noteq> None) (ancestors out)"
    and fs1: "fs1 = fs0 \<lparr> dirs := dirs fs0 \<union> set (ancestors out) \<rparr>"
    by (auto simp: mkdir_parents_def split: if_splits)
  have nsu: "\<not> strictly_under out out" by (simp add: strictly_under_def)
  from ancestors_self[OF ne] fs1 have "out \<in> dirs fs1" by simp
  with fs_frameD(1)[OF fr] have ex: "out \<in> dirs fsR" by blast
  from fs_frameD(3)[OF fr nsu] fs1 nofile have nf: "files fsR out = None" by simp
  define fsX where "fsX = \<lparr> dirs = Set.filter (\<lambda>q. \<not> is_under out q) (dirs fsR),
      files = (\<lambda>q. if is_under out q then None else files fsR q) \<rparr>"
  have dX: "q \<in> dirs fsX \<longleftrightarrow> q \<in> dirs fsR \<and> \<not> is_under out q" for q
    by (simp add: fsX_def)
  have fX: "files fsX q = (if is_under out q then None else files fsR q)" for q
    by (simp add: fsX_def)
  from nf have rm: "rmtree out fsR = Inr fsX" by (simp add: rmtree_def fsX_def)
  have files_eq: "files fsX = files fs0"
  proof
    fix q
    show "files fsX q = files fs0 q"
    proof (cases "is_under out q")
      case True
      with clean[OF True] show ?thesis by (simp add: fX)
    next
      case False
      then have "\<not> strictly_under out q" by (simp add: strictly_under_def)
      from fs_frameD(3)[OF fr this] fs1 False show ?thesis by (simp add: fX)
    qed
  qed
  have dirs_eq: "dirs fsX \<union> set (ancestors out) = dirs fs0 \<union> set (ancestors out)"
  proof (intro equalityI subsetI)
    fix q
    assume "q \<in> dirs fsX \<union> set (ancestors out)"
    then consider "q \<in> set (ancestors out)" | "q \<in> dirs fsR" "\<not> is_under out q"
      by (auto simp: dX)
    then show "q \<in> dirs fs0 \<union> set (ancestors out)"
    proof cases
      case 1
      then show ?thesis by simp
    next
      case 2
      then have "\<not> strictly_under out q" by (simp add: strictly_under_def)
      with 2 fs_frameD(2)[OF fr] fs1 show ?thesis by auto
    qed
  next
    fix q
    assume "q \<in> dirs fs0 \<union> set (ancestors out)"
    then consider "q \<in> set (ancestors out)" | "q \<in> dirs fs0" by auto
    then show "q \<in> dirs fsX \<union> set (ancestors out)"
    proof cases
      case 1
      then show ?thesis by simp
    next
      case 2
      with clean[of q] have nu: "\<not> is_under out q" by blast
      from 2 fs1 fs_frameD(1)[OF fr] have "q \<in> dirs fsR" by auto
      with nu show ?thesis by (simp add: dX)
    qed
  qed
  have mk2: "mkdir_parents out fsX = Inr fs1"
  proof -
    have "fsX \<lparr> dirs := dirs fsX \<union> set (ancestors out) \<rparr> = fs1"
      unfolding fs1 by (rule filesystem.equality) (simp_all add: files_eq dirs_eq)
    moreover have "files fsX out = None" using files_eq nofile by simp
    moreover have "\<not> list_ex (\<lambda>q. files fsX q \<noteq> None) (ancestors out)"
      using noanc unfolding files_eq .
    ultimately show ?thesis by (simp add: mkdir_parents_def)
  qed
  from ex rm mk2 show ?thesis by (simp add: prepare_output_def)
qed

lemmas tree_eval = classifier_eval sanitize_name_def is_id_start_def is_id_continue_def
  path_str_def mkdir_parents_def write_init_def endswith_newline_def strip_def is_space_def
  last_segment_def render_variables_def get_type_annotation_def inspect_type_def

text \<open>
  C4. When every module object carries its \<^verbatim>\<open>__name__\<close> and the names are at most \<open>L\<close> long,
  the traversal from any root returns, with the same result at every nesting depth beyond
  \<open>L\<close>, whatever references the modules hold to each other: a qualifying submodule has a
  strictly longer name than its parent. A call for a pair (output path, qualified name)
  whose key is already in the processed set returns at once and leaves the generator
  and the file system as they were; every call that returns has put its key into that
  set, and the set only grows.
\<close>

theorem traversal_terminates_visits_once:
  assumes "\<forall>r. ismodule (h r) \<longrightarrow> (\<exists>n. attr_name (h r) = Some n \<and> length n \<le> L)"
  shows "(\<exists>out. \<forall>k. create_module_structure (Suc L + k) h m base None g fs = Some out)
    \<and> (module_key base (effective_name h m narg) \<in> processed_modules g
        \<longrightarrow> create_module_structure (Suc d) h m base narg g fs = Some (None, g, fs))
    \<and> (create_module_structure d h m base narg g fs = Some (e, g', fs')
        \<longrightarrow> processed_modules g \<subseteq> processed_modules g'
            \<and> module_key base (effective_name h m narg) \<in> processed_modules g')"
proof (intro conjI impI)
  have named: "\<exists>n. attr_name (h r) = Some n \<and> length n \<le> L" if "ismodule (h r)" for r
    using assms that by blast
  have "create_module_structure (Suc L) h m base None g fs \<noteq> None"
    by (rule create_module_structure_returns[OF named]) simp_all
  then obtain out where out: "create_module_structure (Suc L) h m base None g fs = Some out"
    by auto
  have "create_module_structure (Suc L + k) h m base None g fs = Some out" for k
    using out by (rule create_module_structure_more_depth)
  then show "\<exists>out. \<forall>k. create_module_structure (Suc L + k) h m base None g fs = Some out"
    by blast
next
  assume "module_key base (effective_name h m narg) \<in> processed_modules g"
  then show "create_module_structure (Suc d) h m base narg g fs = Some (None, g, fs)"
    by (rule create_module_structure_visited)
next
  assume r: "create_module_structure d h m base narg g fs = Some (e, g', fs')"
  from create_module_structure_grows[OF r]
  show "processed_modules g \<subseteq> processed_modules g'"
    by (simp add: generator_grows_def)
  from create_module_structure_grows[OF r]
  show "module_key base (effective_name h m narg) \<in> processed_modules g'"
    by simp
qed

lemma cycle_heap_named:
  "\<forall>r. ismodule (cycle_heap r) \<longrightarrow> (\<exists>n. attr_name (cycle_heap r) = Some n \<and> length n \<le> 7)"
  by (simp add: cycle_heap_def plain_object_def)

lemma cycle_heap_run:
  "create_module_structure (Suc (Suc 0)) cycle_heap 0 [''stubs''] None new_generator empty_fs
   = Some (None,
       new_generator \<lparr> processed_modules := {''stubs/pkg/pkg.sub'', ''stubs/pkg''} \<rparr>,
       \<lparr> dirs = {[''stubs''], [''stubs'', ''pkg''], [''stubs'', ''pkg'', ''sub'']},
         files = [[''stubs'', ''pkg'', ''sub'', ''__init__.pyi''] \<mapsto> ''from typing import Any\<newline>'',
                  [''stubs'', ''pkg'', ''__init__.pyi'']
                    \<mapsto> ''from typing import Any\<newline>\<newline>from . import sub\<newline>''] \<rparr>)"
  by (auto simp: cycle_heap_def new_generator_def empty_fs_def tree_eval)

theorem traversal_terminates_visits_once_witness:
  "(\<exists>out. \<forall>k. create_module_structure (Suc 7 + k) cycle_heap 0 [''stubs''] None
                    new_generator empty_fs = Some out)
   \<and> create_module_structure (Suc 0) cycle_heap 0 [''stubs''] None
        (new_generator \<lparr> processed_modules := {''stubs/pkg/pkg.sub'', ''stubs/pkg''} \<rparr>) empty_fs
       = Some (None, new_generator \<lparr> processed_modules := {''stubs/pkg/pkg.sub'', ''stubs/pkg''} \<rparr>,
               empty_fs)
   \<and> processed_modules new_generator
       \<subseteq> processed_modules (new_generator \<lparr> processed_modules := {''stubs/pkg/pkg.sub'', ''stubs/pkg''} \<rparr>)"
proof -
  note t = traversal_terminates_visits_once[OF cycle_heap_named,
      where m = 0 and base = "[''stubs'']" and narg = None]
  have key: "module_key [''stubs''] (effective_name cycle_heap 0 None) = ''stubs/pkg''"
    by (simp add: module_key_def effective_name_def getattr_name_def cycle_heap_def
        plain_object_def path_str_def)
  from t[where g = new_generator and fs = empty_fs and d = 0]
  have 1: "\<exists>out. \<forall>k. create_module_structure (Suc 7 + k) cycle_heap 0 [''stubs''] None
        new_generator empty_fs = Some out"
    by blast
  from t[where g = "new_generator \<lparr> processed_modules := {''stubs/pkg/pkg.sub'', ''stubs/pkg''} \<rparr>"
      and fs = empty_fs and d = 0]
  have 2: "create_module_structure (Suc 0) cycle_heap 0 [''stubs''] None
        (new_generator \<lparr> processed_modules := {''stubs/pkg/pkg.sub'', ''stubs/pkg''} \<rparr>) empty_fs
       = Some (None, new_generator \<lparr> processed_modules := {''stubs/pkg/pkg.sub'', ''stubs/pkg''} \<rparr>,
               empty_fs)"
    by (simp add: key del: create_module_structure.simps)
  from t[where g = new_generator and fs = empty_fs and d = "Suc (Suc 0)" and e = None
      and g' = "new_generator \<lparr> processed_modules := {''stubs/pkg/pkg.sub'', ''stubs/pkg''} \<rparr>"]
    cycle_heap_run
  have 3: "processed_modules new_generator
       \<subseteq> processed_modules (new_generator \<lparr> processed_modules := {''stubs/pkg/pkg.sub'', ''stubs/pkg''} \<rparr>)"
    by (simp del: create_module_structure.simps)
  from 1 2 3 show ?thesis by blast
qed

lemma demo_heap_prepare:
  "prepare_output [''stubs''] True empty_fs = (None, \<lparr> dirs = {[''stubs'']}, files = Map.empty \<rparr>)"
  by (simp add: prepare_output_def empty_fs_def mkdir_parents_def)

lemma demo_heap_create:
  "create_module_structure (Suc (Suc 0)) demo_heap 0 [''stubs''] None new_generator
     \<lparr> dirs = {[''stubs'']}, files = Map.empty \<rparr>
   = Some (None,
       new_generator \<lparr> processed_modules := {''stubs/demo/demo.utils'', ''stubs/demo''} \<rparr>,
       demo_tree)"
  by (auto simp: demo_heap_def new_generator_def demo_tree_def tree_eval)

text \<open>
  C7. For the package \<^verbatim>\<open>demo\<close> with \<^verbatim>\<open>import demo.utils as helpers\<close>, a run into an empty
  file system creates the directories \<^verbatim>\<open>stubs\<close>, \<^verbatim>\<open>stubs/demo\<close> and \<^verbatim>\<open>stubs/demo/utils\<close>
  and no other: the one subdirectory is named after the last segment of \<^verbatim>\<open>demo.utils\<close>.
  The parent's file has the line \<^verbatim>\<open>from . import utils\<close>, after the line for the alias.
\<close>

theorem alias_import_one_directory:
  "map_option (\<lambda>r. (raised r, reported r, dirs (fs_after r), files (fs_after r)))
     (dump_module (2 + k) demo_heap 0 [''stubs''] True empty_fs)
   = Some (None, None,
       {[''stubs''], [''stubs'', ''demo''], [''stubs'', ''demo'', ''utils'']},
       [[''stubs'', ''demo'', ''utils'', ''__init__.pyi''] \<mapsto> ''from typing import Any\<newline>'',
        [''stubs'', ''demo'', ''__init__.pyi'']
          \<mapsto> ''from typing import Any\<newline>\<newline>from . import helpers\<newline>from . import utils\<newline>''])"
  using create_module_structure_more_depth[OF demo_heap_create, of k]
  by (simp add: dump_module_def generator_dump_module_def demo_heap_prepare add.commute
      demo_tree_def del: create_module_structure.simps)

section \<open>Properties of class deduplication\<close>

text \<open>
  After the classifier has run on a namespace, \<^verbatim>\<open>self.class_name_mapping\<close> maps every class
  object of the namespace to the name it has there. The class loop that follows therefore
  finds the existing name equal to the current one, and everything it appends to the
  content is a class block: the branch that writes an alias line is never taken.
\<close>

lemma render_classes_only_blocks:
  assumes "list_all (\<lambda>(n, r). class_name_mapping g r = Some n) cs"
    and "render_classes h mn cs g c = (e, g', c')"
  shows "\<exists>blocks. c' = c @ blocks
    \<and> list_all (\<lambda>s. list_ex (\<lambda>(n, r). dump_class_stub h (h r) = Inr s) cs) blocks"
  using assms
proof (induction h mn cs g c rule: render_classes.induct)
  case (1 h mn g c)
  then show ?case by simp
next
  case (2 h mn cn r rest g c)
  from "2.prems"(1) have here: "class_name_mapping g r = Some cn"
    and rest: "list_all (\<lambda>(n, r). class_name_mapping g r = Some n) rest"
    by simp_all
  show ?case
  proof (cases "r \<in> processed_class_objects g")
    case True
    with "2.prems"(2) here have run: "render_classes h mn rest g c = (e, g', c')"
      by (simp add: Let_def)
    from "2.IH"(1)[OF True refl refl refl rest] run here
    obtain blocks where b: "c' = c @ blocks"
      "list_all (\<lambda>s. list_ex (\<lambda>(n, r). dump_class_stub h (h r) = Inr s) rest) blocks"
      by (auto simp: Let_def)
    from b(2) have "list_all (\<lambda>s. list_ex (\<lambda>(n, r). dump_class_stub h (h r) = Inr s)
        ((cn, r) # rest)) blocks"
      by (auto simp: list_all_iff)
    with b(1) show ?thesis by blast
  next
    case False
    let ?g = "g \<lparr> processed_class_objects := insert r (processed_class_objects g),
                   processed_classes := insert (mn @ ''.'' @ cn) (processed_classes g) \<rparr>"
    show ?thesis
    proof (cases "dump_class_stub h (h r)")
      case (Inl x)
      with False "2.prems"(2) have "c' = c" by (auto simp: Let_def)
      then show ?thesis by simp
    next
      case (Inr stub)
      with False "2.prems"(2) have run: "render_classes h mn rest ?g (c @ [stub]) = (e, g', c')"
        by (simp add: Let_def)
      from rest have rest': "list_all (\<lambda>(n, r). class_name_mapping ?g r = Some n) rest"
        by simp
      from "2.IH"(2)[OF False refl Inr rest' run]
      obtain blocks where b: "c' = (c @ [stub]) @ blocks"
        "list_all (\<lambda>s. list_ex (\<lambda>(n, r). dump_class_stub h (h r) = Inr s) rest) blocks"
        by blast
      from b(2) Inr have "list_all (\<lambda>s. list_ex (\<lambda>(n, r). dump_class_stub h (h r) = Inr s)
          ((cn, r) # rest)) (stub # blocks)"
        by (auto simp: list_all_iff)
      with b(1) show ?thesis by (intro exI[of _ "stub # blocks"]) simp
    qed
  qed
qed

lemma alias_line_never_written:
  assumes gm: "get_module_members h mo mp = (ms, mp')"
    and rc: "render_classes h mn (m_classes ms) (g \<lparr> class_name_mapping := mp' \<rparr>) c = (e, g', c')"
  shows "\<exists>blocks. c' = c @ blocks
    \<and> list_all (\<lambda>s. list_ex (\<lambda>(n, r). dump_class_stub h (h r) = Inr s) (m_classes ms)) blocks"
proof (rule render_classes_only_blocks[OF _ rc])
  show "list_all (\<lambda>(n, r). class_name_mapping (g \<lparr> class_name_mapping := mp' \<rparr>) r = Some n)
      (m_classes ms)"
    using get_module_members_classes(3)[OF gm] by (auto simp: list_all_iff)
qed







lemma import_line_starts: "\<not> startswith (''from . import '' @ x) ''class ''"
  by (simp add: startswith_def)
















section \<open>Properties of the driver\<close>

lemma prepare_output_failed_again:
  assumes wf: "parents_exist fs" and ne: "out \<noteq> []"
    and p: "prepare_output out True fs = (Some x, fs1)"
  shows "prepare_output out True fs1 = (Some x, fs1)"
proof (cases "if out \<in> dirs fs \<or> files fs out \<noteq> None then rmtree out fs else Inr fs")
  case (Inl e)
  with p have "fs1 = fs" by (simp add: prepare_output_def)
  with p show ?thesis by simp
next
  case (Inr fs0)
  with p have mk: "mkdir_parents out fs0 = Inl x" and eq: "fs1 = fs0"
    by (auto simp: prepare_output_def split: sum.splits)
  have u: "is_under out out" by (simp add: is_under_def)
  from cleared_output[OF wf ne Inr u] have "out \<notin> dirs fs0" "files fs0 out = None" by simp_all
  with mk eq show ?thesis by (simp add: prepare_output_def)
qed

text \<open>
  C9. With the clear-existing-output flag set and a fresh generator for each run, a second
  run over the file system the first one left returns the same result as the first: the
  same file system (so the same output tree, file by file) and the same report. The file
  system the first run starts from is well-formed and the output root is a named
  directory. Objects, and so the texts of their signatures and annotations, are the same
  in both runs.
\<close>

theorem rerun_identical:
  assumes "parents_exist fs" and "output_dir \<noteq> []"
    and "dump_module d h m output_dir True fs = Some r"
  shows "dump_module d h m output_dir True (fs_after r) = Some r"
proof -
  obtain x fs1 where p: "prepare_output output_dir True fs = (x, fs1)"
    by (cases "prepare_output output_dir True fs") auto
  show ?thesis
  proof (cases x)
    case (Some e)
    with p assms(3) have r: "r = \<lparr> raised = Some e, reported = None,
        generator_after = new_generator, fs_after = fs1 \<rparr>"
      by (simp add: dump_module_def generator_dump_module_def)
    from prepare_output_failed_again[OF assms(1,2)] p Some
    have "prepare_output output_dir True fs1 = (Some e, fs1)" by simp
    then show ?thesis by (simp add: r dump_module_def generator_dump_module_def)
  next
    case None
    with p assms(3) obtain e g' fsR where
      c: "create_module_structure d h m output_dir None new_generator fs1 = Some (e, g', fsR)"
      and r: "r = \<lparr> raised = None, reported = e, generator_after = g', fs_after = fsR \<rparr>"
      by (auto simp: dump_module_def generator_dump_module_def split: option.splits)
    from p None have p': "prepare_output output_dir True fs = (None, fs1)" by simp
    from prepare_output_again[OF assms(1,2) p' create_module_structure_frame[OF c]]
    have "prepare_output output_dir True fsR = (None, fs1)" .
    with c show ?thesis by (simp add: r dump_module_def generator_dump_module_def)
  qed
qed

theorem rerun_identical_witness:
  "dump_module 2 demo_heap 0 [''stubs''] True empty_fs = Some demo_run
   \<and> dump_module 2 demo_heap 0 [''stubs''] True (fs_after demo_run) = Some demo_run"
proof -
  have wf: "parents_exist empty_fs" by (simp add: parents_exist_def empty_fs_def)
  have 1: "dump_module 2 demo_heap 0 [''stubs''] True empty_fs = Some demo_run"
    using demo_heap_create
    by (simp add: dump_module_def generator_dump_module_def demo_heap_prepare demo_run_def
        numeral_2_eq_2 del: create_module_structure.simps)
  from rerun_identical[OF wf _ 1] 1 show ?thesis by simp
qed

text \<open>
  C8, as stated, fails: the output root is prepared before the driver's \<^verbatim>\<open>try\<close> block, so
  an exception raised there leaves the driver. Here the output root exists as a regular
  file and creating the directory raises.
\<close>

theorem driver_raises_counterexample:
  "dump_module 1 demo_heap 0 [''stubs''] False stubs_file_fs
   = Some \<lparr> raised = Some FileExistsError, reported = None,
            generator_after = new_generator, fs_after = stubs_file_fs \<rparr>"
  by (simp add: dump_module_def generator_dump_module_def prepare_output_def mkdir_parents_def
      stubs_file_fs_def)

text \<open>
  C8, amended. Once the output root is prepared, every exception the traversal raises is
  caught by the driver and reported, none leaves it, and the run ends with the file
  system as the traversal left it: the directories and files that existed after the
  preparation are still there. An exception raised by the preparation itself leaves the
  driver, with the file system as the preparation left it.
\<close>

theorem driver_catches_traversal:
  "(prepare_output output_dir remove_if_exists fs = (None, fsp)
      \<and> create_module_structure d h m output_dir None g fsp = Some (e, g', fs')
     \<longrightarrow> generator_dump_module d h m output_dir remove_if_exists g fs
           = Some \<lparr> raised = None, reported = e, generator_after = g', fs_after = fs' \<rparr>
         \<and> dirs fsp \<subseteq> dirs fs' \<and> dom (files fsp) \<subseteq> dom (files fs'))
   \<and> (prepare_output output_dir remove_if_exists fs = (Some x, fsp)
     \<longrightarrow> generator_dump_module d h m output_dir remove_if_exists g fs
           = Some \<lparr> raised = Some x, reported = None, generator_after = g, fs_after = fsp \<rparr>)"
proof (intro conjI impI)
  assume a: "prepare_output output_dir remove_if_exists fs = (None, fsp)
      \<and> create_module_structure d h m output_dir None g fsp = Some (e, g', fs')"
  then show "generator_dump_module d h m output_dir remove_if_exists g fs
      = Some \<lparr> raised = None, reported = e, generator_after = g', fs_after = fs' \<rparr>"
    by (simp add: generator_dump_module_def)
  from a have "fs_frame output_dir fsp fs'" by (auto dest: create_module_structure_frame)
  then show "dirs fsp \<subseteq> dirs fs'" "dom (files fsp) \<subseteq> dom (files fs')"
    by (simp_all add: fs_frameD)
next
  assume "prepare_output output_dir remove_if_exists fs = (Some x, fsp)"
  then show "generator_dump_module d h m output_dir remove_if_exists g fs
      = Some \<lparr> raised = Some x, reported = None, generator_after = g, fs_after = fsp \<rparr>"
    by (simp add: generator_dump_module_def)
qed

lemma handler_heap_create:
  "create_module_structure (Suc 0) handler_heap 0 [''stubs''] None new_generator
     \<lparr> dirs = {[''stubs'']}, files = Map.empty \<rparr>
   = Some (Some AttributeError,
       new_generator \<lparr> processed_modules := {''stubs/demo''} \<rparr>,
       \<lparr> dirs = {[''stubs''], [''stubs'', ''demo'']}, files = Map.empty \<rparr>)"
  by (auto simp: handler_heap_def new_generator_def tree_eval dump_function_stub_def)

theorem driver_catches_traversal_witness:
  "generator_dump_module 1 handler_heap 0 [''stubs''] True new_generator empty_fs
     = Some \<lparr> raised = None, reported = Some AttributeError,
              generator_after = new_generator \<lparr> processed_modules := {''stubs/demo''} \<rparr>,
              fs_after = \<lparr> dirs = {[''stubs''], [''stubs'', ''demo'']}, files = Map.empty \<rparr> \<rparr>
   \<and> generator_dump_module 1 demo_heap 0 [''stubs''] True new_generator stubs_file_fs
     = Some \<lparr> raised = Some NotADirectoryError, reported = None,
              generator_after = new_generator, fs_after = stubs_file_fs \<rparr>"
proof -
  have p2: "prepare_output [''stubs''] True stubs_file_fs = (Some NotADirectoryError, stubs_file_fs)"
    by (simp add: prepare_output_def rmtree_def stubs_file_fs_def)
  from driver_catches_traversal[where output_dir = "[''stubs'']" and remove_if_exists = True
      and fs = empty_fs and fsp = "\<lparr> dirs = {[''stubs'']}, files = Map.empty \<rparr>"
      and d = 1 and h = handler_heap and m = 0 and g = new_generator
      and e = "Some AttributeError"
      and g' = "new_generator \<lparr> processed_modules := {''stubs/demo''} \<rparr>"
      and fs' = "\<lparr> dirs = {[''stubs''], [''stubs'', ''demo'']}, files = Map.empty \<rparr>"]
    demo_heap_prepare handler_heap_create
  have 1: "generator_dump_module 1 handler_heap 0 [''stubs''] True new_generator empty_fs
     = Some \<lparr> raised = None, reported = Some AttributeError,
              generator_after = new_generator \<lparr> processed_modules := {''stubs/demo''} \<rparr>,
              fs_after = \<lparr> dirs = {[''stubs''], [''stubs'', ''demo'']}, files = Map.empty \<rparr> \<rparr>"
    by (simp del: create_module_structure.simps)
  from driver_catches_traversal[where output_dir = "[''stubs'']" and remove_if_exists = True
      and fs = stubs_file_fs and fsp = stubs_file_fs and x = NotADirectoryError
      and d = 1 and h = demo_heap and m = 0 and g = new_generator] p2
  have 2: "generator_dump_module 1 demo_heap 0 [''stubs''] True new_generator stubs_file_fs
     = Some \<lparr> raised = Some NotADirectoryError, reported = None,
              generator_after = new_generator, fs_after = stubs_file_fs \<rparr>"
    by (simp del: create_module_structure.simps)
  from 1 2 show ?thesis by simp
qed

section \<open>Properties of the type annotation resolver\<close>

text \<open>
  C6, as stated, fails: without a declared annotation the resolver returns the name of the
  value's runtime type whenever the value is an instance of a primitive kind, and for an
  instance of a subclass that name is neither one of the four kinds nor \<^verbatim>\<open>Any\<close>.
\<close>

theorem get_type_annotation_subclass_counterexample:
  "attr_annotations enum_member = NoAnnotations
   \<and> get_type_annotation enum_member = ''Color''
   \<and> ''Color'' \<notin> set (''Any'' # primitive_kinds)"
  by (simp add: enum_member_def plain_object_def get_type_annotation_def inspect_type_def
      primitive_kinds_def)

text \<open>
  C6, amended. The resolver never raises (it is a total function into strings, every
  failure of the inspection being mapped to \<^verbatim>\<open>Any\<close>) and follows this ordered rule: when the
  value has an \<^verbatim>\<open>__annotations__\<close> attribute, the stringified \<^verbatim>\<open>return\<close> entry, or \<^verbatim>\<open>Any\<close> when
  there is none; otherwise, when the value is an instance of int, float, str or bool, the
  name of its runtime type; otherwise \<^verbatim>\<open>Any\<close>.
\<close>

theorem get_type_annotation_rule:
  "get_type_annotation obj =
     (case attr_annotations obj of
        Annotations d \<Rightarrow>
          (case map_of d ''return'' of Some (Some s) \<Rightarrow> s | _ \<Rightarrow> ''Any'')
      | NoAnnotations \<Rightarrow> (if is_primitive obj then type_name obj else ''Any'')
      | AnnotationsRaise \<Rightarrow> ''Any'')
   \<and> (inspect_type obj = Inl e \<longrightarrow> get_type_annotation obj = ''Any'')"
  by (simp add: get_type_annotation_def inspect_type_def split: annotations.splits option.splits)

theorem get_type_annotation_rule_witness:
  "inspect_type (plain_object \<lparr> attr_annotations := AnnotationsRaise \<rparr>) = Inl InspectionError
   \<and> get_type_annotation (plain_object \<lparr> attr_annotations := AnnotationsRaise \<rparr>) = ''Any''"
  using get_type_annotation_rule
    [of "plain_object \<lparr> attr_annotations := AnnotationsRaise \<rparr>" InspectionError]
  by (simp add: inspect_type_def plain_object_def)

end
